theory Spec2Isabelle
  imports Main
begin

section \<open>Go runtime and standard library pieces used by glob.go\<close>

text \<open>
  A Go \<open>string\<close> is a sequence of bytes: here a \<^typ>\<open>string\<close> (a list of 8-bit
  characters). A Go \<open>error\<close> value that may be \<open>nil\<close> is a \<open>go_error option\<close>.
  A run-time panic (index out of range) is the value \<open>None\<close> of functions whose result
  type is an \<open>option\<close> and whose comment says so.
\<close>

datatype go_error =
    ErrBadPattern
  | ErrNotExist
  | ErrPermission
  | ErrInvalid
  | PathError string string go_error
  | JoinError "go_error list"

text \<open>\<open>errors.Join\<close>: drops the nil errors, returns nil when none is left.\<close>

definition errors_Join :: "go_error option list \<Rightarrow> go_error option" where
  "errors_Join errs =
     (let es = concat (map (\<lambda>e. case e of None \<Rightarrow> [] | Some x \<Rightarrow> [x]) errs)
      in if es = [] then None else Some (JoinError es))"

text \<open>\<open>errors.Is(err, fs.ErrNotExist)\<close>: looks through the wrappers of \<open>err\<close>.\<close>

fun errors_Is_NotExist :: "go_error \<Rightarrow> bool" where
  "errors_Is_NotExist ErrNotExist = True"
| "errors_Is_NotExist (PathError op' p e) = errors_Is_NotExist e"
| "errors_Is_NotExist (JoinError es) = list_ex errors_Is_NotExist es"
| "errors_Is_NotExist e = False"

text \<open>\<open>strings.Split(s, "/")\<close> (what \<open>strings.SplitSeq\<close> yields): the pieces between
  the separators, one more than there are separators.\<close>

fun strings_Split :: "char \<Rightarrow> string \<Rightarrow> string list" where
  "strings_Split sep [] = [[]]"
| "strings_Split sep (c # cs) =
     (if c = sep then [] # strings_Split sep cs
      else (case strings_Split sep cs of
              [] \<Rightarrow> [[c]]
            | x # xs \<Rightarrow> (c # x) # xs))"

text \<open>The expression
  \<open>slices.Collect(fx.Filter(strings.SplitSeq(p, "/"), func(s) { return s != "" }))\<close>
  that both \<open>newPattern\<close> and \<open>MatchPath\<close> evaluate.\<close>

definition nonEmptySteps :: "string \<Rightarrow> string list" where
  "nonEmptySteps p = filter (\<lambda>s. s \<noteq> []) (strings_Split (CHR ''/'') p)"

subsection \<open>unicode/utf8\<close>

type_synonym rune = int

definition RuneError :: rune where
  "RuneError = 65533"

text \<open>\<open>utf8.DecodeRuneInString\<close>: the first rune of the string and its width in bytes;
  \<open>(RuneError, 0)\<close> on the empty string and \<open>(RuneError, 1)\<close> on an invalid
  encoding. A rune is an \<open>int32\<close>: here an integer, and so are the bytes it is
  computed from. The masks \<open>& 0x1F\<close>, \<open>& 0x0F\<close>, \<open>& 0x07\<close>, \<open>& 0x3F\<close> and the shifts
  are written with \<open>mod\<close> and multiplication.\<close>

definition utf8_first :: "int \<Rightarrow> (nat \<times> int \<times> int) option" where
  \<comment> \<open>size and accepted range of the second byte, by the first byte; None: one-byte result\<close>
  "utf8_first b0 =
     (if b0 < 0xC2 then None
      else if b0 < 0xE0 then Some (2, 0x80, 0xBF)
      else if b0 = 0xE0 then Some (3, 0xA0, 0xBF)
      else if b0 < 0xED then Some (3, 0x80, 0xBF)
      else if b0 = 0xED then Some (3, 0x80, 0x9F)
      else if b0 < 0xF0 then Some (3, 0x80, 0xBF)
      else if b0 = 0xF0 then Some (4, 0x90, 0xBF)
      else if b0 < 0xF4 then Some (4, 0x80, 0xBF)
      else if b0 = 0xF4 then Some (4, 0x80, 0x8F)
      else None)"

definition DecodeRuneInString :: "string \<Rightarrow> rune \<times> nat" where
  "DecodeRuneInString s =
     (case s of
        [] \<Rightarrow> (RuneError, 0)
      | c0 # _ \<Rightarrow>
          (let s0 = (of_char c0 :: int) in
           case utf8_first s0 of
             None \<Rightarrow> (if s0 < 0x80 then (s0, 1) else (RuneError, 1))
           | Some (sz, lo, hi) \<Rightarrow>
               if length s < sz then (RuneError, 1)
               else let s1 = (of_char (s ! 1) :: int) in
                 if s1 < lo \<or> hi < s1 then (RuneError, 1)
                 else if sz \<le> 2 then ((s0 mod 32) * 64 + s1 mod 64, 2)
                 else let s2 = (of_char (s ! 2) :: int) in
                   if s2 < 0x80 \<or> 0xBF < s2 then (RuneError, 1)
                   else if sz \<le> 3 then ((s0 mod 16) * 4096 + (s1 mod 64) * 64 + s2 mod 64, 3)
                   else let s3 = (of_char (s ! 3) :: int) in
                     if s3 < 0x80 \<or> 0xBF < s3 then (RuneError, 1)
                     else ((s0 mod 8) * 262144 + (s1 mod 64) * 4096
                             + (s2 mod 64) * 64 + s3 mod 64, 4)))"

subsection \<open>path.Match\<close>

text \<open>\<open>scanChunk\<close>: strips the leading stars, then cuts the pattern before the next star
  that is not inside a character class.\<close>

fun scanLoop :: "string \<Rightarrow> bool \<Rightarrow> string \<times> string" where
  "scanLoop [] inrange = ([], [])"
| "scanLoop (c # cs) inrange =
     (if c = CHR 0x5C then
        (case cs of
           [] \<Rightarrow> ([c], [])
         | d # ds \<Rightarrow> (case scanLoop ds inrange of (a, b) \<Rightarrow> (c # d # a, b)))
      else if c = CHR ''['' then (case scanLoop cs True of (a, b) \<Rightarrow> (c # a, b))
      else if c = CHR '']'' then (case scanLoop cs False of (a, b) \<Rightarrow> (c # a, b))
      else if c = CHR ''*'' \<and> \<not> inrange then ([], c # cs)
      else (case scanLoop cs inrange of (a, b) \<Rightarrow> (c # a, b)))"

definition scanChunk :: "string \<Rightarrow> bool \<times> string \<times> string" where
  "scanChunk pattern =
     (let p = dropWhile (\<lambda>c. c = CHR ''*'') pattern;
          star = (pattern \<noteq> [] \<and> hd pattern = CHR ''*'')
      in case scanLoop p False of (chunk, rest) \<Rightarrow> (star, chunk, rest))"

text \<open>\<open>getEsc\<close>: a possibly escaped character of a character class.\<close>

definition getEsc :: "string \<Rightarrow> rune \<times> string \<times> go_error option" where
  "getEsc chunk =
     (case chunk of
        [] \<Rightarrow> (0, [], Some ErrBadPattern)
      | c # cs \<Rightarrow>
          if c = CHR ''-'' \<or> c = CHR '']'' then (0, [], Some ErrBadPattern)
          else if c = CHR 0x5C \<and> cs = [] then (0, [], Some ErrBadPattern)
          else
            (let chunk1 = (if c = CHR 0x5C then cs else chunk) in
             case DecodeRuneInString chunk1 of (r, n) \<Rightarrow>
               (let err1 = (if r = RuneError \<and> n = 1 then Some ErrBadPattern else None);
                    nchunk = drop n chunk1
                in (r, nchunk, if nchunk = [] then Some ErrBadPattern else err1))))"

lemma DecodeRuneInString_width: "s \<noteq> [] \<Longrightarrow> 0 < snd (DecodeRuneInString s)"
  by (cases s) (auto simp: DecodeRuneInString_def Let_def split: option.splits)

lemma getEsc_shorter:
  assumes "getEsc chunk = (r, nchunk, None)"
  shows "length nchunk < length chunk"
proof (cases chunk)
  case Nil
  with assms show ?thesis by (simp add: getEsc_def)
next
  case (Cons c cs)
  define chunk1 where "chunk1 = (if c = CHR 0x5C then cs else chunk)"
  from assms Cons have ne: "chunk1 \<noteq> []"
    by (auto simp: getEsc_def chunk1_def split: if_splits)
  from assms Cons have "nchunk = drop (snd (DecodeRuneInString chunk1)) chunk1"
    by (auto simp: getEsc_def chunk1_def Let_def split: if_splits prod.splits)
  with DecodeRuneInString_width [OF ne] ne have "length nchunk < length chunk1"
    by simp
  moreover have "length chunk1 \<le> length chunk"
    using Cons by (simp add: chunk1_def)
  ultimately show ?thesis by simp
qed

lemma getEsc_shorter_sym: "(r, nchunk, None) = getEsc chunk \<Longrightarrow> length nchunk < length chunk"
  using getEsc_shorter [of chunk r nchunk] by simp

text \<open>The loop of \<open>matchChunk\<close> that parses the ranges of a character class, from the
  position after \<open>[\<close> or \<open>[^\<close>; \<open>r\<close> is the rune of the name being tested.\<close>

function classLoop :: "string \<Rightarrow> rune \<Rightarrow> bool \<Rightarrow> nat \<Rightarrow> string \<times> bool \<times> go_error option" where
  "classLoop chunk r matched nrange =
     (if chunk \<noteq> [] \<and> hd chunk = CHR '']'' \<and> 0 < nrange then (tl chunk, matched, None)
      else
        (case getEsc chunk of (lo, chunk1, err) \<Rightarrow>
           (case err of
              Some e \<Rightarrow> ([], False, Some e)
            | None \<Rightarrow>
                if hd chunk1 = CHR ''-'' then
                  (case getEsc (tl chunk1) of (hi, chunk2, err2) \<Rightarrow>
                     (case err2 of
                        Some e \<Rightarrow> ([], False, Some e)
                      | None \<Rightarrow> classLoop chunk2 r (matched \<or> (lo \<le> r \<and> r \<le> hi)) (nrange + 1)))
                else classLoop chunk1 r (matched \<or> (lo \<le> r \<and> r \<le> lo)) (nrange + 1))))"
  by pat_completeness auto
termination
proof (relation "measure (\<lambda>(chunk, r, m, n). length chunk)", goal_cases)
  case 1
  show ?case by simp
next
  case 2
  then show ?case by (auto dest!: getEsc_shorter_sym)
next
  case 3
  then show ?case by (auto dest!: getEsc_shorter_sym)
qed

declare classLoop.simps [simp del]

lemma classLoop_shorter:
  "classLoop chunk r matched nrange = (chunk', matched', None) \<Longrightarrow> length chunk' < length chunk"
proof (induction chunk r matched nrange rule: classLoop.induct)
  case (1 chunk r matched nrange)
  show ?case
  proof (cases "chunk \<noteq> [] \<and> hd chunk = CHR '']'' \<and> 0 < nrange")
    case True
    from "1.prems" [unfolded classLoop.simps [of chunk] if_P [OF True]]
    show ?thesis using True by (cases chunk) auto
  next
    case False
    obtain lo chunk1 err where g1: "getEsc chunk = (lo, chunk1, err)"
      by (cases "getEsc chunk") auto
    note p1 = "1.prems" [unfolded classLoop.simps [of chunk] if_not_P [OF False] g1 prod.case]
    from p1 have err: "err = None"
      by (cases err) simp_all
    from g1 err have l1: "length chunk1 < length chunk"
      using getEsc_shorter by simp
    show ?thesis
    proof (cases "hd chunk1 = CHR ''-''")
      case dash: True
      obtain hi chunk2 err2 where g2: "getEsc (tl chunk1) = (hi, chunk2, err2)"
        by (cases "getEsc (tl chunk1)") auto
      from p1 err dash g2 have err2: "err2 = None"
        by (cases err2) simp_all
      from g2 err2 have l2: "length chunk2 < length (tl chunk1)"
        using getEsc_shorter [of "tl chunk1" hi chunk2] by (simp del: length_tl)
      from p1 err dash g2 err2
      have "classLoop chunk2 r (matched \<or> (lo \<le> r \<and> r \<le> hi)) (nrange + 1) = (chunk', matched', None)"
        by simp
      from "1.IH"(1) [OF False g1 [symmetric] refl err dash g2 [symmetric] refl err2 this]
      have "length chunk' < length chunk2" .
      with l1 l2 show ?thesis by simp
    next
      case nodash: False
      from p1 err nodash
      have "classLoop chunk1 r (matched \<or> (lo \<le> r \<and> r \<le> lo)) (nrange + 1) = (chunk', matched', None)"
        by simp
      from "1.IH"(2) [OF False g1 [symmetric] refl err nodash this]
      have "length chunk' < length chunk1" .
      with l1 show ?thesis by simp
    qed
  qed
qed

lemma classLoop_shorter_sym:
  "(chunk', matched', None) = classLoop chunk r matched nrange \<Longrightarrow> length chunk' < length chunk"
  using classLoop_shorter [of chunk r matched nrange chunk' matched'] by simp

text \<open>\<open>matchChunk\<close>: whether the chunk (literals, \<open>?\<close> and character classes) matches
  a prefix of \<open>s\<close>; the result is \<open>(rest, ok, err)\<close>. After the match has failed the
  loop goes on over the chunk to check its syntax, without reading \<open>s\<close>.\<close>

function matchChunkLoop :: "string \<Rightarrow> string \<Rightarrow> bool \<Rightarrow> string \<times> bool \<times> go_error option" where
  "matchChunkLoop chunk s failed0 =
     (case chunk of
        [] \<Rightarrow> (if failed0 then ([], False, None) else (s, True, None))
      | c # cs \<Rightarrow>
          (let failed = (failed0 \<or> s = []) in
           if c = CHR ''['' then
             (let r = (if failed then 0 else fst (DecodeRuneInString s));
                  s1 = (if failed then s else drop (snd (DecodeRuneInString s)) s);
                  negated = (cs \<noteq> [] \<and> hd cs = CHR ''^'');
                  chunk2 = (if negated then tl cs else cs)
              in case classLoop chunk2 r False 0 of (chunk3, matched, err) \<Rightarrow>
                   (case err of
                      Some e \<Rightarrow> ([], False, Some e)
                    | None \<Rightarrow> matchChunkLoop chunk3 s1 (failed \<or> matched = negated)))
           else if c = CHR ''?'' then
             (if failed then matchChunkLoop cs s failed
              else matchChunkLoop cs (drop (snd (DecodeRuneInString s)) s) (hd s = CHR ''/''))
           else if c = CHR 0x5C \<and> cs = [] then ([], False, Some ErrBadPattern)
           else
             (let chunk1 = (if c = CHR 0x5C then cs else chunk) in
              if failed then matchChunkLoop (tl chunk1) s failed
              else matchChunkLoop (tl chunk1) (tl s) (hd chunk1 \<noteq> hd s))))"
  by pat_completeness auto
termination
proof (relation "measure (\<lambda>(chunk, s, f). length chunk)", goal_cases)
  case 1
  show ?case by simp
next
  case 2
  then show ?case by (auto dest!: classLoop_shorter_sym split: if_splits)
next
  case 3
  then show ?case by simp
next
  case 4
  then show ?case by simp
next
  case 5
  then show ?case by (auto split: if_splits)
next
  case 6
  then show ?case by (auto split: if_splits)
qed

definition matchChunk :: "string \<Rightarrow> string \<Rightarrow> string \<times> bool \<times> go_error option" where
  "matchChunk chunk s = matchChunkLoop chunk s False"

declare matchChunkLoop.simps [simp del]

lemma scanLoop_append_fst_snd: "fst (scanLoop p inrange) @ snd (scanLoop p inrange) = p"
  by (induction p inrange rule: scanLoop.induct) (simp_all add: case_prod_beta split: list.split)

lemma scanLoop_append: "scanLoop p inrange = (a, b) \<Longrightarrow> a @ b = p"
  using scanLoop_append_fst_snd [of p inrange] by simp

lemma scanLoop_progress:
  "p \<noteq> [] \<Longrightarrow> hd p \<noteq> CHR ''*'' \<Longrightarrow> fst (scanLoop p inrange) \<noteq> []"
  by (cases p) (simp_all add: case_prod_beta split: list.split)

lemma scanChunk_shorter:
  assumes "pattern \<noteq> []" and "scanChunk pattern = (star, chunk, rest)"
  shows "length rest < length pattern"
proof -
  define p where "p = dropWhile (\<lambda>c. c = CHR ''*'') pattern"
  from assms(2) have sl: "scanLoop p False = (chunk, rest)"
    by (auto simp: scanChunk_def p_def Let_def split: prod.splits)
  then have app: "chunk @ rest = p"
    by (rule scanLoop_append)
  have le: "length p \<le> length pattern"
    unfolding p_def by (rule length_dropWhile_le)
  show ?thesis
  proof (cases "p = []")
    case True
    with app assms(1) show ?thesis by simp
  next
    case False
    then have "hd p \<noteq> CHR ''*''"
      unfolding p_def using hd_dropWhile [of "\<lambda>c. c = CHR ''*''" pattern] by simp
    with False sl have "chunk \<noteq> []"
      using scanLoop_progress [of p False] by simp
    moreover from app have "length p = length chunk + length rest"
      by auto
    ultimately have "length rest < length p"
      by simp
    with le show ?thesis by simp
  qed
qed

lemma scanChunk_shorter_sym:
  "pattern \<noteq> [] \<Longrightarrow> (star, chunk, rest) = scanChunk pattern \<Longrightarrow> length rest < length pattern"
  using scanChunk_shorter [of pattern star chunk rest] by simp

text \<open>The inner loop of \<open>path.Match\<close> after a star: tries the chunk after skipping
  \<open>i + 1\<close> bytes of the name, never skipping a slash.\<close>

datatype star_result = StarFound string | StarError go_error | StarNotFound

fun starSearch :: "string \<Rightarrow> bool \<Rightarrow> string \<Rightarrow> star_result" where
  "starSearch chunk lastChunk [] = StarNotFound"
| "starSearch chunk lastChunk (c # cs) =
     (if c = CHR ''/'' then StarNotFound
      else (case matchChunk chunk cs of (t, ok, err) \<Rightarrow>
              if ok then (if lastChunk \<and> t \<noteq> [] then starSearch chunk lastChunk cs
                          else StarFound t)
              else (case err of
                      Some e \<Rightarrow> StarError e
                    | None \<Rightarrow> starSearch chunk lastChunk cs)))"

text \<open>The loop that checks the syntax of the rest of the pattern before \<open>path.Match\<close>
  returns false.\<close>

function validateRest :: "string \<Rightarrow> go_error option" where
  "validateRest pattern =
     (if pattern = [] then None
      else (case scanChunk pattern of (star, chunk, rest) \<Rightarrow>
              (case matchChunk chunk [] of (t, ok, err) \<Rightarrow>
                 (case err of
                    Some e \<Rightarrow> Some e
                  | None \<Rightarrow> validateRest rest))))"
  by pat_completeness auto
termination
  by (relation "measure length") (auto dest: scanChunk_shorter_sym)

declare validateRest.simps [simp del]

function path_Match :: "string \<Rightarrow> string \<Rightarrow> bool \<times> go_error option" where
  "path_Match pattern name =
     (if pattern = [] then (name = [], None)
      else (case scanChunk pattern of (star, chunk, rest) \<Rightarrow>
        if star \<and> chunk = [] then (CHR ''/'' \<notin> set name, None)
        else (case matchChunk chunk name of (t, ok, err) \<Rightarrow>
          if ok \<and> (t = [] \<or> rest \<noteq> []) then path_Match rest t
          else (case err of
                  Some e \<Rightarrow> (False, Some e)
                | None \<Rightarrow>
                    (case (if star then starSearch chunk (rest = []) name else StarNotFound) of
                       StarFound t' \<Rightarrow> path_Match rest t'
                     | StarError e \<Rightarrow> (False, Some e)
                     | StarNotFound \<Rightarrow> (False, validateRest rest))))))"
  by pat_completeness auto
termination
  by (relation "measure (\<lambda>(pattern, name). length pattern)") (auto dest: scanChunk_shorter_sym)

declare path_Match.simps [simp del]

section \<open>glob.go\<close>

text \<open>\<open>match\<close> drops the error of \<open>path.Match\<close>.\<close>

definition match :: "string \<Rightarrow> string \<Rightarrow> bool" where
  "match pattern name = fst (path_Match pattern name)"

type_synonym pattern = "string list"

text \<open>\<open>newPattern\<close>: the updated pattern list and the error. \<open>steps\<close> is never empty
  when \<open>steps[0]\<close> is read, by the two lines before it.\<close>

definition newPattern :: "string \<Rightarrow> pattern list \<Rightarrow> pattern list \<times> go_error option" where
  "newPattern p patterns =
     (case snd (path_Match p []) of
        Some err \<Rightarrow> (patterns, Some err)
      | None \<Rightarrow>
          (let steps0 = nonEmptySteps p;
               steps = (if length steps0 = 0 then [[]] else steps0);
               patterns1 = patterns @ [steps]
           in if steps ! 0 = ''**'' \<and> length steps \<noteq> 1
              then (patterns1 @ [drop 1 steps], None)
              else (patterns1, None)))"

fun newPatternsLoop :: "string list \<Rightarrow> pattern list \<Rightarrow> go_error list \<Rightarrow> pattern list \<times> go_error list" where
  "newPatternsLoop [] patterns errs = (patterns, errs)"
| "newPatternsLoop (i # ps) patterns errs =
     (case newPattern i patterns of (patterns', err) \<Rightarrow>
        newPatternsLoop ps patterns' (case err of None \<Rightarrow> errs | Some e \<Rightarrow> errs @ [e]))"

definition newPatterns :: "string list \<Rightarrow> pattern list \<times> go_error option" where
  "newPatterns ps =
     (case newPatternsLoop ps [] [] of (patterns, errs) \<Rightarrow>
        (patterns, errors_Join (map Some errs)))"

text \<open>\<open>matchDir\<close>: the result of the call and the updated \<open>*patterns\<close>. \<open>None\<close> is
  the panic of \<open>p[0], p[1:]\<close> on an empty pattern.\<close>

definition matchDir :: "pattern \<Rightarrow> string \<Rightarrow> pattern list \<Rightarrow> (bool \<times> pattern list) option" where
  "matchDir p name patterns =
     (case p of
        [] \<Rightarrow> None
      | step # rest \<Rightarrow>
          if step \<noteq> ''**'' \<and> \<not> match step name then Some (False, patterns)
          else
            (let patterns1 = (if step = ''**'' then patterns @ [p] else patterns)
             in if length rest = 0 then Some (True, patterns1)
                else Some (False, patterns1 @ [rest])))"

definition matchFile :: "pattern \<Rightarrow> string \<Rightarrow> bool" where
  "matchFile p name \<longleftrightarrow> length p = 1 \<and> (p ! 0 = ''**'' \<or> match (p ! 0) name)"

definition always :: "pattern list \<Rightarrow> bool" where
  "always patterns \<longleftrightarrow> list_ex (\<lambda>p. length p = 1 \<and> p ! 0 = ''**'') patterns"

definition hasMeta :: "string \<Rightarrow> bool" where
  "hasMeta p \<longleftrightarrow> list_ex (\<lambda>c. c \<in> set [CHR ''*'', CHR ''?'', CHR ''['', CHR 0x5C]) p"

text \<open>\<open>literal\<close>: \<open>None\<close> is the panic of \<open>p[0]\<close> on an empty pattern.\<close>

definition literal :: "pattern list \<Rightarrow> (string \<times> pattern list \<times> bool) option" where
  "literal patterns =
     (if length patterns \<noteq> 1 then Some ([], [], False)
      else (case patterns ! 0 of
              [] \<Rightarrow> None
            | p0 # rest \<Rightarrow>
                if hasMeta p0 then Some ([], [], False)
                else Some (p0, (if 1 < length (p0 # rest) then [rest] else []), True)))"

subsection \<open>The three strategies and New\<close>

record matchGlob =
  "include" :: "pattern list"
  exclude :: "pattern list"

datatype Glob = AllGlob | NoneGlob | MatchGlob matchGlob

text \<open>\<open>New\<close> returns the pair \<open>(Glob, error)\<close>; the Glob is nil when the error is not.\<close>

definition New :: "string list \<Rightarrow> string list \<Rightarrow> Glob option \<times> go_error option" where
  "New includes excludes =
     (if length excludes = 0 \<and> ''**'' \<in> set includes then (Some AllGlob, None)
      else if length includes = 0 \<or> ''**'' \<in> set excludes then (Some NoneGlob, None)
      else
        (case newPatterns includes of (includePatterns, inclErr) \<Rightarrow>
         case newPatterns excludes of (excludePatterns, exclErr) \<Rightarrow>
           (case errors_Join [inclErr, exclErr] of
              Some err \<Rightarrow> (None, Some err)
            | None \<Rightarrow>
                (Some (MatchGlob \<lparr>include = includePatterns, exclude = excludePatterns\<rparr>),
                 None))))"

subsection \<open>MatchPath\<close>

text \<open>The loop \<open>for _, p := range ps { if p.matchDir(name, &next) { ... } }\<close> that
  leaves at the first pattern reporting a match (\<open>return\<close> or \<open>continue match\<close> in
  the source): the flag says whether it left early.\<close>

fun matchDirFirst :: "pattern list \<Rightarrow> string \<Rightarrow> pattern list \<Rightarrow> (bool \<times> pattern list) option" where
  "matchDirFirst [] name next = Some (False, next)"
| "matchDirFirst (p # ps) name next =
     (case matchDir p name next of
        None \<Rightarrow> None
      | Some (hit, next') \<Rightarrow> if hit then Some (True, next') else matchDirFirst ps name next')"

text \<open>The loop over the include patterns that runs \<open>matchDir\<close> on every pattern; the
  flag says whether some call reported a match.\<close>

fun matchDirEach :: "pattern list \<Rightarrow> string \<Rightarrow> pattern list \<Rightarrow> (bool \<times> pattern list) option" where
  "matchDirEach [] name next = Some (False, next)"
| "matchDirEach (p # ps) name next =
     (case matchDir p name next of
        None \<Rightarrow> None
      | Some (hit, next') \<Rightarrow>
          (case matchDirEach ps name next' of
             None \<Rightarrow> None
           | Some (hit', next'') \<Rightarrow> Some (hit \<or> hit', next'')))"

text \<open>The body of \<open>matchGlob.MatchPath\<close> from the names on: the empty list is the early
  \<open>return false\<close>, a single name is the code after the loop, a longer list one round of
  the loop over \<open>names[:len(names)-1]\<close>.\<close>

fun matchPathLoop :: "string list \<Rightarrow> pattern list \<Rightarrow> pattern list \<Rightarrow> bool option" where
  "matchPathLoop [] incl excl = Some False"
| "matchPathLoop [lastName] incl excl =
     (case matchDirFirst excl lastName [] of
        None \<Rightarrow> None
      | Some (hit, nextExclude) \<Rightarrow>
          if hit then Some False
          else (case matchDirFirst incl lastName [] of
                  None \<Rightarrow> None
                | Some (hit', nextInclude) \<Rightarrow> Some hit'))"
| "matchPathLoop (dir # names) incl excl =
     (case matchDirFirst excl dir [] of
        None \<Rightarrow> None
      | Some (hit, nextExclude) \<Rightarrow>
          if hit then Some False
          else (case matchDirEach incl dir [] of
                  None \<Rightarrow> None
                | Some (hit', nextInclude) \<Rightarrow>
                    if length nextInclude = 0 then Some False
                    else matchPathLoop names nextInclude nextExclude))"

definition matchGlob_MatchPath :: "matchGlob \<Rightarrow> string \<Rightarrow> bool option" where
  "matchGlob_MatchPath g p = matchPathLoop (nonEmptySteps p) (include g) (exclude g)"

fun MatchPath :: "Glob \<Rightarrow> string \<Rightarrow> bool option" where
  "MatchPath AllGlob p = Some True"
| "MatchPath NoneGlob p = Some False"
| "MatchPath (MatchGlob g) p = matchGlob_MatchPath g p"

subsection \<open>path.Join and path.Clean\<close>

text \<open>The backtracking of \<open>path.Clean\<close> on a \<open>..\<close> element: \<open>out.w--\<close>, then
  \<open>for out.w > dotdot && out.index(out.w) != '/' { out.w-- }\<close>; the result is the new
  \<open>out.w\<close>.\<close>

fun backtrack :: "string \<Rightarrow> nat \<Rightarrow> nat \<Rightarrow> nat" where
  "backtrack out dotdot 0 = 0"
| "backtrack out dotdot (Suc w) =
     (if dotdot < Suc w \<and> out ! Suc w \<noteq> CHR ''/'' then backtrack out dotdot w else Suc w)"

function cleanLoop :: "bool \<Rightarrow> string \<Rightarrow> string \<Rightarrow> nat \<Rightarrow> string" where
  "cleanLoop rooted path out dotdot =
     (case path of
        [] \<Rightarrow> out
      | c # cs \<Rightarrow>
          if c = CHR ''/'' then cleanLoop rooted cs out dotdot
          else if c = CHR ''.'' \<and> (cs = [] \<or> hd cs = CHR ''/'') then cleanLoop rooted cs out dotdot
          else if c = CHR ''.'' \<and> hd cs = CHR ''.'' \<and> (tl cs = [] \<or> hd (tl cs) = CHR ''/'') then
            (if dotdot < length out
             then cleanLoop rooted (tl cs) (take (backtrack out dotdot (length out - 1)) out) dotdot
             else if \<not> rooted
             then (let out1 = (if 0 < length out then out @ ''/'' else out) @ ''..''
                   in cleanLoop rooted (tl cs) out1 (length out1))
             else cleanLoop rooted (tl cs) out dotdot)
          else
            (let out1 = (if (rooted \<and> length out \<noteq> 1) \<or> (\<not> rooted \<and> length out \<noteq> 0)
                         then out @ ''/'' else out)
             in cleanLoop rooted (dropWhile (\<lambda>x. x \<noteq> CHR ''/'') cs)
                  (out1 @ c # takeWhile (\<lambda>x. x \<noteq> CHR ''/'') cs) dotdot))"
  by pat_completeness auto
termination
proof (relation "measure (\<lambda>(rooted, path, out, dotdot). length path)", goal_cases)
  case 1
  show ?case by simp
next
  case 2
  then show ?case by simp
next
  case 3
  then show ?case by simp
next
  case 4
  then show ?case by simp
next
  case 5
  then show ?case by simp
next
  case 6
  then show ?case by simp
next
  case (7 rooted path out dotdot c cs)
  have "length (dropWhile (\<lambda>x. x \<noteq> CHR ''/'') cs) \<le> length cs"
    by (rule length_dropWhile_le)
  with 7 show ?case by simp
qed

declare cleanLoop.simps [simp del]

definition path_Clean :: "string \<Rightarrow> string" where
  "path_Clean path =
     (if path = [] then ''.''
      else
        (let rooted = (hd path = CHR ''/'');
             out = (if rooted then cleanLoop True (tl path) ''/'' 1
                    else cleanLoop False path [] 0)
         in if length out = 0 then ''.'' else out))"

fun joinLoop :: "string list \<Rightarrow> string \<Rightarrow> string" where
  "joinLoop [] buf = buf"
| "joinLoop (e # es) buf =
     joinLoop es (if 0 < length buf \<or> e \<noteq> []
                  then (if 0 < length buf then buf @ ''/'' else buf) @ e
                  else buf)"

definition path_Join :: "string list \<Rightarrow> string" where
  "path_Join elem =
     (if sum_list (map length elem) = 0 then [] else path_Clean (joinLoop elem []))"

subsection \<open>The file system and the consumer of the sequence\<close>

text \<open>
  The \<open>fs.FS\<close> the caller supplies is used through \<open>fs.ReadDir\<close> and \<open>fs.Stat\<close>
  only: a listing is a list of entries \<open>(Name(), IsDir())\<close> or an error, a probe gives
  \<open>IsDir()\<close> of the file information or an error.
\<close>

type_synonym dir_entry = "string \<times> bool"

record FS =
  ReadDir :: "string \<Rightarrow> go_error + dir_entry list"
  Stat :: "string \<Rightarrow> go_error + bool"

text \<open>
  What a walk does, in order: the listings and probes it asks of the file system and the
  items it yields. The consumer of the \<open>iter.Seq2\<close> is the function \<open>yield\<close> it
  passes: here a function from the items yielded so far (the last one included) to
  whether it wants more.
\<close>

datatype event = EvReadDir string | EvStat string | EvYield string "go_error option"

type_synonym item = "string \<times> go_error option"
type_synonym consumer = "item list \<Rightarrow> bool"

fun items :: "event list \<Rightarrow> item list" where
  "items [] = []"
| "items (EvYield p e # evs) = (p, e) # items evs"
| "items (ev # evs) = items evs"

definition yield :: "consumer \<Rightarrow> event list \<Rightarrow> string \<Rightarrow> go_error option \<Rightarrow> event list \<times> bool" where
  "yield k log p e = (let log' = log @ [EvYield p e] in (log', k (items log')))"

text \<open>
  The result of a walk: the events so far and the boolean the Go function returns
  (false: the consumer stopped); \<open>Panicked\<close> is a run-time panic; \<open>OutOfFuel\<close> is the
  model's answer when the recursion is deeper than the fuel given (the walk of an
  \<open>fs.FS\<close> of unbounded depth does not return).
\<close>

datatype walk_result = OutOfFuel | Panicked | Returned "event list" bool

definition returned :: "event list \<times> bool \<Rightarrow> walk_result" where
  "returned r = Returned (fst r) (snd r)"

subsection \<open>allStep\<close>

text \<open>The loop over the entries in \<open>allStep\<close>; \<open>rec\<close> is the recursive call.\<close>

fun allLoop :: "(string \<Rightarrow> bool \<Rightarrow> bool \<Rightarrow> event list \<Rightarrow> walk_result) \<Rightarrow> consumer \<Rightarrow> string
    \<Rightarrow> bool \<Rightarrow> dir_entry list \<Rightarrow> event list \<Rightarrow> walk_result" where
  "allLoop rec k dir includeDirs [] log = Returned log True"
| "allLoop rec k dir includeDirs ((name, isDir) # infos) log =
     (if isDir then
        (case rec (path_Join [dir, name]) True includeDirs log of
           Returned log' ok \<Rightarrow>
             if \<not> ok then Returned log' False else allLoop rec k dir includeDirs infos log'
         | r \<Rightarrow> r)
      else
        (case yield k log (path_Join [dir, name]) None of (log', ok) \<Rightarrow>
           if \<not> ok then Returned log' False else allLoop rec k dir includeDirs infos log'))"

primrec allStep :: "nat \<Rightarrow> FS \<Rightarrow> consumer \<Rightarrow> string \<Rightarrow> bool \<Rightarrow> bool \<Rightarrow> event list \<Rightarrow> walk_result" where
  "allStep 0 fsys k dir yieldDir includeDirs log = OutOfFuel"
| "allStep (Suc fuel) fsys k dir yieldDir includeDirs log =
     (let log1 = log @ [EvReadDir dir] in
      case ReadDir fsys dir of
        Inl err \<Rightarrow> returned (yield k log1 dir (Some err))
      | Inr infos \<Rightarrow>
          (case (if yieldDir \<and> includeDirs then yield k log1 dir None else (log1, True)) of
             (log2, ok) \<Rightarrow>
               if \<not> ok then Returned log2 False
               else allLoop (allStep fuel fsys k) k dir includeDirs infos log2))"

subsection \<open>matchStep\<close>

text \<open>The loop \<open>match:\<close> over the entries; \<open>rec\<close> is the recursive call of
  \<open>matchStep\<close>. \<open>nextInclude[:0]\<close> and \<open>nextExclude[:0]\<close> start each round from empty
  lists.\<close>

fun matchLoop :: "(string \<Rightarrow> bool \<Rightarrow> bool \<Rightarrow> pattern list \<Rightarrow> pattern list \<Rightarrow> event list \<Rightarrow> walk_result)
    \<Rightarrow> consumer \<Rightarrow> string \<Rightarrow> bool \<Rightarrow> pattern list \<Rightarrow> pattern list
    \<Rightarrow> dir_entry list \<Rightarrow> event list \<Rightarrow> walk_result" where
  "matchLoop rec k dir includeDirs incl excl [] log = Returned log True"
| "matchLoop rec k dir includeDirs incl excl ((name, isDir) # infos) log =
     (if \<not> isDir then
        (if list_ex (\<lambda>p. matchFile p name) excl
         then matchLoop rec k dir includeDirs incl excl infos log
         else if list_ex (\<lambda>p. matchFile p name) incl
         then (case yield k log (path_Join [dir, name]) None of (log', ok) \<Rightarrow>
                 if \<not> ok then Returned log' False
                 else matchLoop rec k dir includeDirs incl excl infos log')
         else matchLoop rec k dir includeDirs incl excl infos log)
      else
        (case matchDirFirst excl name [] of
           None \<Rightarrow> Panicked
         | Some (excluded, nextExclude) \<Rightarrow>
             if excluded then matchLoop rec k dir includeDirs incl excl infos log
             else
               (case matchDirEach incl name [] of
                  None \<Rightarrow> Panicked
                | Some (hit, nextInclude) \<Rightarrow>
                    (let included = (hit \<and> includeDirs) in
                     if length nextInclude \<noteq> 0 \<and> \<not> always nextExclude then
                       (case rec (path_Join [dir, name]) included includeDirs
                               nextInclude nextExclude log of
                          Returned log' ok \<Rightarrow>
                            if \<not> ok then Returned log' False
                            else matchLoop rec k dir includeDirs incl excl infos log'
                        | r \<Rightarrow> r)
                     else if included then
                       (case yield k log (path_Join [dir, name]) None of (log', ok) \<Rightarrow>
                          if \<not> ok then Returned log' False
                          else matchLoop rec k dir includeDirs incl excl infos log')
                     else matchLoop rec k dir includeDirs incl excl infos log))))"

text \<open>The part of \<open>matchStep\<close> from \<open>fs.ReadDir\<close> on.\<close>

definition listStep :: "(string \<Rightarrow> bool \<Rightarrow> bool \<Rightarrow> pattern list \<Rightarrow> pattern list \<Rightarrow> event list \<Rightarrow> walk_result)
    \<Rightarrow> FS \<Rightarrow> consumer \<Rightarrow> string \<Rightarrow> bool \<Rightarrow> bool \<Rightarrow> pattern list \<Rightarrow> pattern list
    \<Rightarrow> event list \<Rightarrow> walk_result" where
  "listStep rec fsys k dir yieldDir includeDirs incl excl log =
     (let log1 = log @ [EvReadDir dir] in
      case ReadDir fsys dir of
        Inl err \<Rightarrow> returned (yield k log1 dir (Some err))
      | Inr infos \<Rightarrow>
          (case (if yieldDir \<and> includeDirs then yield k log1 dir None else (log1, True)) of
             (log2, ok) \<Rightarrow>
               if \<not> ok then Returned log2 False
               else matchLoop rec k dir includeDirs incl excl infos log2))"

text \<open>The branch of \<open>matchStep\<close> taken when \<open>literal(include)\<close> succeeds with
  \<open>name\<close> and \<open>nextInclude\<close>.\<close>

definition literalStep :: "(string \<Rightarrow> bool \<Rightarrow> bool \<Rightarrow> pattern list \<Rightarrow> pattern list \<Rightarrow> event list \<Rightarrow> walk_result)
    \<Rightarrow> FS \<Rightarrow> consumer \<Rightarrow> string \<Rightarrow> bool \<Rightarrow> string \<Rightarrow> pattern list \<Rightarrow> pattern list
    \<Rightarrow> event list \<Rightarrow> walk_result" where
  "literalStep rec fsys k dir includeDirs name nextInclude excl log =
     (if list_ex (\<lambda>p. matchFile p name) excl then Returned log True
      else
        (let target = path_Join [dir, name];
             log1 = log @ [EvStat target]
         in case Stat fsys target of
              Inl err \<Rightarrow>
                if errors_Is_NotExist err then Returned log1 True
                else returned (yield k log1 dir (Some err))
            | Inr isDir \<Rightarrow>
                if isDir then
                  (case matchDirEach excl name [] of
                     None \<Rightarrow> Panicked
                   | Some (hit, nextExclude) \<Rightarrow>
                       if length nextInclude \<noteq> 0 \<and> \<not> always nextExclude
                       then rec target includeDirs includeDirs nextInclude nextExclude log1
                       else if \<not> includeDirs then Returned log1 True
                       else returned (yield k log1 target None))
                else returned (yield k log1 target None)))"

primrec matchStep :: "nat \<Rightarrow> FS \<Rightarrow> consumer \<Rightarrow> string \<Rightarrow> bool \<Rightarrow> bool \<Rightarrow> pattern list \<Rightarrow> pattern list
    \<Rightarrow> event list \<Rightarrow> walk_result" where
  "matchStep 0 fsys k dir yieldDir includeDirs incl excl log = OutOfFuel"
| "matchStep (Suc fuel) fsys k dir yieldDir includeDirs incl excl log =
     (if always incl then
        (if length excl = 0 then allStep fuel fsys k dir yieldDir includeDirs log
         else listStep (matchStep fuel fsys k) fsys k dir yieldDir includeDirs [[''**'']] excl log)
      else
        (case literal incl of
           None \<Rightarrow> Panicked
         | Some (name, nextInclude, ok) \<Rightarrow>
             if ok then literalStep (matchStep fuel fsys k) fsys k dir includeDirs name nextInclude excl log
             else listStep (matchStep fuel fsys k) fsys k dir yieldDir includeDirs incl excl log))"

text \<open>\<open>Match\<close> of the three strategies, run with the consumer \<open>k\<close>.\<close>

fun Match :: "nat \<Rightarrow> Glob \<Rightarrow> FS \<Rightarrow> consumer \<Rightarrow> string \<Rightarrow> bool \<Rightarrow> walk_result" where
  "Match fuel AllGlob fsys k dir includeDirs = allStep fuel fsys k dir False includeDirs []"
| "Match fuel NoneGlob fsys k dir includeDirs = Returned [] True"
| "Match fuel (MatchGlob g) fsys k dir includeDirs =
     matchStep fuel fsys k dir False includeDirs (include g) (exclude g) []"

subsection \<open>A file system in memory\<close>

text \<open>
  A finite tree given by its directories (each path with its listing, in listing order),
  in the manner of \<open>testing/fstest.MapFS\<close>: a path is a directory when it is one of
  the listed directories, a plain file when a listing holds it as one, and does not exist
  otherwise.
\<close>

definition treeFS :: "(string \<times> dir_entry list) list \<Rightarrow> FS" where
  "treeFS dirs =
     \<lparr> ReadDir = (\<lambda>d. case map_of dirs d of
                         Some es \<Rightarrow> Inr es
                       | None \<Rightarrow> Inl (PathError ''readdir'' d ErrNotExist)),
       Stat = (\<lambda>p. if list_ex (\<lambda>de. fst de = p) dirs then Inr True
                    else if list_ex (\<lambda>de. list_ex (\<lambda>e. \<not> snd e \<and> path_Join [fst de, fst e] = p) (snd de)) dirs
                    then Inr False
                    else Inl (PathError ''stat'' p ErrNotExist)) \<rparr>"

text \<open>The consumer that takes every item.\<close>

definition takeAll :: consumer where
  "takeAll its = True"

text \<open>A file system on which every listing and every probe fails with the given error.\<close>

definition failFS :: "go_error \<Rightarrow> FS" where
  "failFS err = \<lparr> ReadDir = (\<lambda>d. Inl err), Stat = (\<lambda>p. Inl err) \<rparr>"

subsection \<open>Notions used to state the properties\<close>

text \<open>A pattern string is rejected when the validation of \<open>newPattern\<close>, the call
  \<open>path.Match(p, "")\<close> on the whole string, returns an error; \<open>syntaxErrors\<close> lists
  those errors for a batch of strings, in order.\<close>

definition rejected :: "string \<Rightarrow> bool" where
  "rejected p \<longleftrightarrow> snd (path_Match p []) \<noteq> None"

definition syntaxErrors :: "string list \<Rightarrow> go_error list" where
  "syntaxErrors ps =
     concat (map (\<lambda>s. case snd (path_Match s []) of None \<Rightarrow> [] | Some e \<Rightarrow> [e]) ps)"

text \<open>The errors a joined error wraps (\<open>Unwrap() []error\<close>); another error stands for
  itself.\<close>

fun unwrapJoin :: "go_error \<Rightarrow> go_error list" where
  "unwrapJoin (JoinError es) = es"
| "unwrapJoin e = [e]"

text \<open>Every pattern of the list has at least one term.\<close>

definition allNonEmpty :: "pattern list \<Rightarrow> bool" where
  "allNonEmpty patterns \<longleftrightarrow> list_all (\<lambda>p. p \<noteq> []) patterns"

text \<open>The terms of a pattern string: its non-empty segments, or the single empty term
  when it has none (the \<open>steps\<close> of \<open>newPattern\<close>).\<close>

definition patternTerms :: "string \<Rightarrow> string list" where
  "patternTerms p = (if length (nonEmptySteps p) = 0 then [[]] else nonEmptySteps p)"

text \<open>
  The malformed pattern strings of the specification (stated from its words, to be
  compared with \<open>rejected\<close>): a term is malformed when a zero-length match against it
  reports a syntax error, and a pattern string is malformed when one of its terms is.
\<close>

definition malformedTerm :: "string \<Rightarrow> bool" where
  "malformedTerm t \<longleftrightarrow> snd (path_Match t []) \<noteq> None"

definition malformed :: "string \<Rightarrow> bool" where
  "malformed p \<longleftrightarrow> list_ex malformedTerm (patternTerms p)"

text \<open>
  The error of \<open>matchChunk\<close> on the empty name, which depends on the chunk alone, and
  the chunks and patterns on which the validation fails.
\<close>

definition chunkError :: "string \<Rightarrow> go_error option" where
  "chunkError c = snd (snd (matchChunkLoop c [] True))"

definition chunkBad :: "string \<Rightarrow> bool" where
  "chunkBad c \<longleftrightarrow> chunkError c \<noteq> None"

definition bad :: "string \<Rightarrow> bool" where
  "bad p \<longleftrightarrow> validateRest p \<noteq> None"

text \<open>
  The brackets of a string as \<open>scanChunk\<close> tracks them (\<open>inrange\<close>): \<open>[\<close> opens,
  \<open>]\<close> closes, and a backslash takes the next byte along. \<open>crude s inr\<close> is the state
  at the end of \<open>s\<close>, entered in state \<open>inr\<close>, and whether \<open>s\<close> ends in a backslash
  that has no byte to take. The bytes other than the backslash and \<open>]\<close> are inert
  inside brackets.
\<close>

fun crude :: "string \<Rightarrow> bool \<Rightarrow> bool \<times> bool" where
  "crude [] inr = (inr, False)"
| "crude (c # cs) inr =
     (if c = CHR 0x5C then (case cs of [] \<Rightarrow> (inr, True) | d # ds \<Rightarrow> crude ds inr)
      else if c = CHR ''['' then crude cs True
      else if c = CHR '']'' then crude cs False
      else crude cs inr)"

definition inert :: "char \<Rightarrow> bool" where
  "inert x \<longleftrightarrow> x \<noteq> CHR 0x5C \<and> x \<noteq> CHR '']''"

abbreviation isStar :: "char \<Rightarrow> bool" where
  "isStar \<equiv> (\<lambda>c. c = CHR ''*'')"

text \<open>
  The pattern strings in which the separator keeps clear of classes and escapes: every
  \<open>/\<close> of the string stands outside brackets, tracked as above, and not right after
  a backslash that takes it along. It is a condition on the text of the string alone;
  \<open>[a/b]\<close> does not satisfy it, nor does a string with a backslash right before a
  separator.
\<close>

fun separatorsOutside :: "string \<Rightarrow> bool \<Rightarrow> bool" where
  "separatorsOutside [] inr = True"
| "separatorsOutside (c # cs) inr =
     (if c = CHR 0x5C then
        (case cs of [] \<Rightarrow> True | d # ds \<Rightarrow> d \<noteq> CHR ''/'' \<and> separatorsOutside ds inr)
      else if c = CHR ''['' then separatorsOutside cs True
      else if c = CHR '']'' then separatorsOutside cs False
      else if c = CHR ''/'' then \<not> inr \<and> separatorsOutside cs inr
      else separatorsOutside cs inr)"

text \<open>
  The reading of a pattern that the specification gives (stated from its words, to be
  compared with \<open>MatchPath\<close>): a term list fully matches a sequence of segments when
  the terms consume the whole sequence in order, \<open>**\<close> standing for any number of
  segments, zero included, and any other term for one segment that it glob-matches.
\<close>

fun fullMatch :: "string list \<Rightarrow> string list \<Rightarrow> bool" where
  "fullMatch [] names = (names = [])"
| "fullMatch (t # ts) names =
     (if t = ''**'' then list_ex (\<lambda>k. fullMatch ts (drop k names)) [0..<Suc (length names)]
      else (case names of
              [] \<Rightarrow> False
            | n # ns \<Rightarrow> match t n \<and> fullMatch ts ns))"

text \<open>
  The specification of \<open>MatchPath\<close>, from its words: some include pattern fully
  matches the segments of the path, and no exclude pattern fully matches a prefix of them.
\<close>

definition specMatchPath :: "string list \<Rightarrow> string list \<Rightarrow> string \<Rightarrow> bool" where
  "specMatchPath incs excs p \<longleftrightarrow>
     (let names = nonEmptySteps p in
      list_ex (\<lambda>i. fullMatch (patternTerms i) names) incs
      \<and> \<not> list_ex (\<lambda>e. list_ex (\<lambda>k. fullMatch (patternTerms e) (take k names))
                              [0..<Suc (length names)]) excs)"

text \<open>
  What a pattern of an active set matches in \<open>MatchPath\<close>, as a function of the names
  still to come: here \<open>**\<close> takes at least one name (\<open>matchDir\<close> re-emits the
  pattern and its rest after consuming a name). \<open>hitDir\<close> and \<open>advDir\<close> are the
  result and the appended patterns of one call of \<open>matchDir\<close>.
\<close>

fun walkMatch :: "pattern \<Rightarrow> string list \<Rightarrow> bool" where
  "walkMatch [] names = (names = [])"
| "walkMatch (t # ts) [] = False"
| "walkMatch (t # ts) (n # ns) =
     (if t = ''**'' then walkMatch ts ns \<or> walkMatch (t # ts) ns
      else match t n \<and> walkMatch ts ns)"

definition hitDir :: "pattern \<Rightarrow> string \<Rightarrow> bool" where
  "hitDir p name \<longleftrightarrow> (case p of [] \<Rightarrow> False | t # rest \<Rightarrow> (t = ''**'' \<or> match t name) \<and> rest = [])"

definition advDir :: "pattern \<Rightarrow> string \<Rightarrow> pattern list" where
  "advDir p name =
     (case p of
        [] \<Rightarrow> []
      | t # rest \<Rightarrow>
          if t = ''**'' then p # (if rest = [] then [] else [rest])
          else if match t name \<and> rest \<noteq> [] then [rest] else [])"

text \<open>The patterns that \<open>newPattern\<close> appends for a valid pattern string.\<close>

definition compiled :: "string \<Rightarrow> pattern list" where
  "compiled p =
     (let ts = patternTerms p
      in if ts ! 0 = ''**'' \<and> length ts \<noteq> 1 then [ts, drop 1 ts] else [ts])"

section \<open>Properties\<close>

subsection \<open>The standard library functions on the cases of their own tests\<close>

text \<open>Cases of the test tables of Go's \<open>path\<close> package, as a check of the transcription
  of \<open>path.Match\<close>, \<open>path.Clean\<close> and \<open>path.Join\<close> above.\<close>

lemma path_Match_examples:
  "path_Match ''abc'' ''abc'' = (True, None)"
  "path_Match ''*c'' ''abc'' = (True, None)"
  "path_Match ''a*'' ''ab/c'' = (False, None)"
  "path_Match ''a*/b'' ''abc/b'' = (True, None)"
  "path_Match ''a*b*c*d*e*/f'' ''axbxcxdxexxx/f'' = (True, None)"
  "path_Match ''a*b*c*d*e*/f'' ''axbxcxdxe/xxx/f'' = (False, None)"
  "path_Match ''a*b?c*x'' ''abxbbxdbxebxczzx'' = (True, None)"
  "path_Match ''a*b?c*x'' ''abxbbxdbxebxczzy'' = (False, None)"
  "path_Match ''ab[b-d]'' ''abc'' = (True, None)"
  "path_Match ''ab[^b-d]'' ''abc'' = (False, None)"
  "path_Match ''ab[^e-g]'' ''abc'' = (True, None)"
  "path_Match [CHR ''a'', CHR 0x5C, CHR ''*'', CHR ''b''] ''a*b'' = (True, None)"
  "path_Match [CHR ''a'', CHR 0x5C, CHR ''*'', CHR ''b''] ''ab'' = (False, None)"
  "path_Match ''a?b'' [CHR ''a'', CHR 0xE2, CHR 0x98, CHR 0xBA, CHR ''b''] = (True, None)"
  "path_Match ''a???b'' [CHR ''a'', CHR 0xE2, CHR 0x98, CHR 0xBA, CHR ''b''] = (False, None)"
  "path_Match ''a?b'' ''a/b'' = (False, None)"
  "path_Match ''[]a]'' '']'' = (False, Some ErrBadPattern)"
  "path_Match ''[x-]'' ''z'' = (False, Some ErrBadPattern)"
  "path_Match ''[a-b-c]'' ''a'' = (False, Some ErrBadPattern)"
  "path_Match [CHR 0x5C] ''a'' = (False, Some ErrBadPattern)"
  "path_Match ''[^bc'' ''a'' = (False, Some ErrBadPattern)"
  "path_Match ''a['' ''x'' = (False, Some ErrBadPattern)"
  "path_Match ''a/b['' ''x'' = (False, Some ErrBadPattern)"
  "path_Match ''*x'' ''xxx'' = (True, None)"
  by code_simp+

lemma path_Clean_examples:
  "path_Clean [] = ''.''"
  "path_Clean ''abc/def'' = ''abc/def''"
  "path_Clean ''../../abc'' = ''../../abc''"
  "path_Clean ''/'' = ''/''"
  "path_Clean ''abc//def//ghi'' = ''abc/def/ghi''"
  "path_Clean ''//abc//'' = ''/abc''"
  "path_Clean ''abc/./def'' = ''abc/def''"
  "path_Clean ''abc/def/ghi/../jkl'' = ''abc/def/jkl''"
  "path_Clean ''abc/def/../..'' = ''.''"
  "path_Clean ''/abc/def/../../..'' = ''/''"
  "path_Clean ''abc/def/../../../ghi/jkl/../../../mno'' = ''../../mno''"
  "path_Clean ''abc/../../././../def'' = ''../../def''"
  by code_simp+

lemma path_Join_examples:
  "path_Join [''a'', ''b''] = ''a/b''"
  "path_Join [''a'', []] = ''a''"
  "path_Join [[], ''b''] = ''b''"
  "path_Join [''/'', ''a''] = ''/a''"
  "path_Join [''a/'', ''b''] = ''a/b''"
  "path_Join [[], []] = []"
  "path_Join [''.'', ''x''] = ''x''"
  "path_Join [''z'', ''..''] = ''.''"
  by code_simp+

subsection \<open>Splitting\<close>

lemma strings_Split_all_sep:
  "\<forall>c\<in>set p. c = sep \<Longrightarrow> strings_Split sep p = replicate (Suc (length p)) []"
  by (induction p) auto

lemma nonEmptySteps_slashes: "\<forall>c\<in>set p. c = CHR ''/'' \<Longrightarrow> nonEmptySteps p = []"
  by (simp add: nonEmptySteps_def strings_Split_all_sep)

subsection \<open>Compilation of one pattern string\<close>

text \<open>
  C7. A valid pattern string whose first non-empty segment is \<open>**\<close> and which has a
  further segment makes \<open>newPattern\<close> append exactly two patterns, the full term list and
  the list without the leading \<open>**\<close>; every other valid pattern string makes it append
  exactly one pattern (its non-empty segments, or the single empty term when there is
  none).
\<close>

theorem newPattern_appended:
  assumes "snd (path_Match p []) = None"
  shows "(\<forall>rest. nonEmptySteps p = ''**'' # rest \<and> rest \<noteq> [] \<longrightarrow>
            newPattern p patterns = (patterns @ [''**'' # rest, rest], None))
       \<and> (\<not> (\<exists>rest. nonEmptySteps p = ''**'' # rest \<and> rest \<noteq> []) \<longrightarrow>
            newPattern p patterns =
              (patterns @ [if nonEmptySteps p = [] then [[]] else nonEmptySteps p], None))"
proof (intro conjI allI impI)
  fix rest
  assume "nonEmptySteps p = ''**'' # rest \<and> rest \<noteq> []"
  with assms show "newPattern p patterns = (patterns @ [''**'' # rest, rest], None)"
    by (simp add: newPattern_def Let_def)
next
  assume no: "\<not> (\<exists>rest. nonEmptySteps p = ''**'' # rest \<and> rest \<noteq> [])"
  show "newPattern p patterns =
          (patterns @ [if nonEmptySteps p = [] then [[]] else nonEmptySteps p], None)"
  proof (cases "nonEmptySteps p")
    case Nil
    with assms show ?thesis by (simp add: newPattern_def Let_def)
  next
    case (Cons s rest)
    with no have "s \<noteq> ''**'' \<or> rest = []" by auto
    with assms Cons show ?thesis by (auto simp: newPattern_def Let_def)
  qed
qed

theorem newPattern_appended_witness:
  "newPattern ''**/a'' [[''x'']] = ([[''x''], [''**'', ''a''], [''a'']], None)
   \<and> newPattern ''a//b/'' [] = ([[''a'', ''b'']], None)"
proof -
  have v1: "snd (path_Match ''**/a'' []) = None" by code_simp
  have v2: "snd (path_Match ''a//b/'' []) = None" by code_simp
  have s1: "nonEmptySteps ''**/a'' = [''**'', ''a'']" by code_simp
  have s2: "nonEmptySteps ''a//b/'' = [''a'', ''b'']" by code_simp
  show ?thesis
    using newPattern_appended [OF v1, of "[[''x'']]"] newPattern_appended [OF v2, of "[]"]
    by (simp add: s1 s2)
qed

subsection \<open>The empty path\<close>

text \<open>
  C9. On a path that is empty or made of slashes only, \<open>MatchPath\<close> of the general
  strategy returns false and \<open>MatchPath\<close> of the match-all strategy (chosen by \<open>New\<close>
  when the includes contain \<open>**\<close> and there are no excludes) returns true.
\<close>

theorem MatchPath_empty_path:
  assumes "\<forall>c\<in>set p. c = CHR ''/''"
  shows "(\<forall>includes excludes g. fst (New includes excludes) = Some (MatchGlob g)
            \<longrightarrow> MatchPath (MatchGlob g) p = Some False)
       \<and> (\<forall>includes. ''**'' \<in> set includes
            \<longrightarrow> (\<exists>g. New includes [] = (Some g, None) \<and> MatchPath g p = Some True))"
  using assms by (simp add: matchGlob_MatchPath_def nonEmptySteps_slashes New_def)

theorem MatchPath_empty_path_witness:
  "fst (New [''a''] [''b'']) = Some (MatchGlob \<lparr>include = [[''a'']], exclude = [[''b'']]\<rparr>)
   \<and> MatchPath (MatchGlob \<lparr>include = [[''a'']], exclude = [[''b'']]\<rparr>) ''//'' = Some False
   \<and> (\<exists>g. New [''a'', ''**''] [] = (Some g, None) \<and> MatchPath g ''//'' = Some True)"
proof -
  have h: "\<forall>c\<in>set ''//''. c = CHR ''/''" by simp
  have n: "fst (New [''a''] [''b'']) = Some (MatchGlob \<lparr>include = [[''a'']], exclude = [[''b'']]\<rparr>)"
    by code_simp
  have m: "''**'' \<in> set [''a'', ''**'']" by simp
  from MatchPath_empty_path [OF h] n m show ?thesis by blast
qed

subsection \<open>Errors of New\<close>

lemma snd_newPattern: "snd (newPattern p patterns) = snd (path_Match p [])"
  by (simp add: newPattern_def Let_def split: option.split)

lemma syntaxErrors_Cons:
  "syntaxErrors (s # ps) = (case snd (path_Match s []) of None \<Rightarrow> [] | Some e \<Rightarrow> [e]) @ syntaxErrors ps"
  by (simp add: syntaxErrors_def)

lemma syntaxErrors_Nil: "syntaxErrors [] = []"
  by (simp add: syntaxErrors_def)

lemma syntaxErrors_append: "syntaxErrors (ps @ qs) = syntaxErrors ps @ syntaxErrors qs"
  by (simp add: syntaxErrors_def)

lemma snd_newPatternsLoop:
  "snd (newPatternsLoop ps patterns errs) = errs @ syntaxErrors ps"
proof (induction ps arbitrary: patterns errs)
  case Nil
  show ?case by (simp add: syntaxErrors_def)
next
  case (Cons s ps)
  obtain patterns' err where np: "newPattern s patterns = (patterns', err)"
    by (cases "newPattern s patterns") auto
  with snd_newPattern [of s patterns] have err: "err = snd (path_Match s [])"
    by simp
  show ?case
    using Cons.IH [of patterns'] np err
    by (simp add: syntaxErrors_Cons split: option.split)
qed

lemma snd_newPatterns: "snd (newPatterns ps) = errors_Join (map Some (syntaxErrors ps))"
  using snd_newPatternsLoop [of ps "[]" "[]"]
  by (cases "newPatternsLoop ps [] []") (simp add: newPatterns_def)

lemma errors_Join_Somes:
  "errors_Join (map Some es) = (if es = [] then None else Some (JoinError es))"
proof -
  have "concat (map (\<lambda>e. case e of None \<Rightarrow> [] | Some x \<Rightarrow> [x]) (map Some es)) = es"
    by (induction es) auto
  then show ?thesis by (simp add: errors_Join_def)
qed

lemma syntaxErrors_Nil_iff: "syntaxErrors ps = [] \<longleftrightarrow> \<not> (\<exists>s\<in>set ps. rejected s)"
  by (induction ps) (auto simp: syntaxErrors_Nil syntaxErrors_Cons rejected_def split: option.splits)

lemma length_syntaxErrors: "length (syntaxErrors ps) = length (filter rejected ps)"
  by (induction ps) (auto simp: syntaxErrors_Nil syntaxErrors_Cons rejected_def split: option.splits)

lemma snd_New_general:
  assumes "\<not> (length excludes = 0 \<and> ''**'' \<in> set includes)"
    and "\<not> (length includes = 0 \<or> ''**'' \<in> set excludes)"
  shows "snd (New includes excludes) =
           errors_Join [errors_Join (map Some (syntaxErrors includes)),
                        errors_Join (map Some (syntaxErrors excludes))]"
    and "fst (New includes excludes) = None \<longleftrightarrow> snd (New includes excludes) \<noteq> None"
  using assms snd_newPatterns [of "includes"] snd_newPatterns [of "excludes"]
  by (auto simp: New_def split: prod.splits option.splits)

subsection \<open>Probe and listing failures\<close>

lemma items_append: "items (xs @ ys) = items xs @ items ys"
  by (induction xs rule: items.induct) auto

text \<open>
  C8. In the literal fast path (the include set is one pattern whose first term has no
  metacharacter, and no exclude pattern matches that name as a file), a probe that fails
  with "does not exist" ends the call with no item and the result true; a probe that fails
  otherwise yields the item \<open>(dir, err)\<close>, as a failed listing of \<open>dir\<close> does in the
  general path.
\<close>

theorem literal_probe_failure:
  assumes "\<not> always incl"
  shows "(literal incl = Some (name, nextInclude, True)
            \<and> \<not> list_ex (\<lambda>p. matchFile p name) excl
            \<and> Stat fsys (path_Join [dir, name]) = Inl err
          \<longrightarrow> matchStep (Suc fuel) fsys k dir yieldDir includeDirs incl excl log =
                (if errors_Is_NotExist err
                 then Returned (log @ [EvStat (path_Join [dir, name])]) True
                 else Returned (log @ [EvStat (path_Join [dir, name]), EvYield dir (Some err)])
                        (k (items log @ [(dir, Some err)]))))
       \<and> (literal incl = Some (name, nextInclude, False) \<and> ReadDir fsys dir = Inl err
          \<longrightarrow> matchStep (Suc fuel) fsys k dir yieldDir includeDirs incl excl log =
                Returned (log @ [EvReadDir dir, EvYield dir (Some err)])
                  (k (items log @ [(dir, Some err)])))"
  using assms
  by (simp add: literalStep_def listStep_def returned_def yield_def items_append)

theorem literal_probe_failure_witness:
  "matchStep 1 (failFS (PathError ''stat'' ''lib'' ErrNotExist)) takeAll ''.'' False True
     [[''lib'', ''*.go'']] [] [] = Returned [EvStat ''lib''] True
   \<and> matchStep 1 (failFS ErrPermission) takeAll ''.'' False True
     [[''lib'', ''*.go'']] [] [] = Returned [EvStat ''lib'', EvYield ''.'' (Some ErrPermission)] True
   \<and> matchStep 1 (failFS ErrPermission) takeAll ''.'' False True
     [[''*.go'']] [] [] = Returned [EvReadDir ''.'', EvYield ''.'' (Some ErrPermission)] True"
proof -
  have a1: "\<not> always [[''lib'', ''*.go'']]" and a2: "\<not> always [[''*.go'']]"
    by code_simp+
  have l1: "literal [[''lib'', ''*.go'']] = Some (''lib'', [[''*.go'']], True)"
    and l2: "literal [[''*.go'']] = Some ([], [], False)"
    by code_simp+
  have j: "path_Join [''.'', ''lib''] = ''lib''"
    by code_simp
  have e: "errors_Is_NotExist (PathError ''stat'' ''lib'' ErrNotExist)"
    "\<not> errors_Is_NotExist ErrPermission"
    by simp_all
  show ?thesis
    using literal_probe_failure [OF a1, where name = "''lib''" and nextInclude = "[[''*.go'']]"
            and excl = "[]" and fsys = "failFS (PathError ''stat'' ''lib'' ErrNotExist)"
            and dir = "''.''" and err = "PathError ''stat'' ''lib'' ErrNotExist" and fuel = 0
            and k = takeAll and yieldDir = False and includeDirs = True and log = "[]"]
          literal_probe_failure [OF a1, where name = "''lib''" and nextInclude = "[[''*.go'']]"
            and excl = "[]" and fsys = "failFS ErrPermission"
            and dir = "''.''" and err = ErrPermission and fuel = 0
            and k = takeAll and yieldDir = False and includeDirs = True and log = "[]"]
          literal_probe_failure [OF a2, where name = "[]" and nextInclude = "[]"
            and excl = "[]" and fsys = "failFS ErrPermission"
            and dir = "''.''" and err = ErrPermission and fuel = 0
            and k = takeAll and yieldDir = False and includeDirs = True and log = "[]"]
    by (simp add: l1 l2 j e failFS_def takeAll_def)
qed

subsection \<open>The literal fast path on an entry that the pattern does not end at\<close>

lemma matchFile_single_term:
  "matchFile p name \<longleftrightarrow> (\<exists>t. p = [t] \<and> (t = ''**'' \<or> match t name))"
  by (cases p; cases "tl p") (auto simp: matchFile_def)

text \<open>
  C3 at a concrete input. The two-term pattern compiled from \<open>README/docs\<close> does not
  match the file name \<open>README\<close> (\<open>matchFile\<close> wants a single term), and the walk of a
  tree whose only entry is the plain file \<open>README\<close> emits it all the same: the literal
  fast path yields the probed path without looking at the terms left. With a second
  include pattern the same walk goes through the listing and emits nothing.
\<close>

theorem literal_fast_path_emits_file:
  "New [''README/docs''] [] =
     (Some (MatchGlob \<lparr>include = [[''README'', ''docs'']], exclude = []\<rparr>), None)
   \<and> \<not> matchFile [''README'', ''docs''] ''README''
   \<and> Match 2 (MatchGlob \<lparr>include = [[''README'', ''docs'']], exclude = []\<rparr>)
        (treeFS [(''.'', [(''README'', False)])]) takeAll ''.'' False
       = Returned [EvStat ''README'', EvYield ''README'' None] True
   \<and> Match 2 (MatchGlob \<lparr>include = [[''README'', ''docs''], [''zz'']], exclude = []\<rparr>)
        (treeFS [(''.'', [(''README'', False)])]) takeAll ''.'' False
       = Returned [EvReadDir ''.''] True"
  by code_simp

text \<open>
  C1 at a concrete input. For the Glob of \<open>New(["a/b"], nil)\<close> and the tree that holds
  the plain file \<open>a\<close> and nothing else, \<open>MatchPath("a")\<close> is false and \<open>Match\<close> emits
  \<open>a\<close>; the same for the tree that holds the empty directory \<open>a\<close>, when directories are
  asked for.
\<close>

theorem MatchPath_Match_disagree:
  "New [''a/b''] [] = (Some (MatchGlob \<lparr>include = [[''a'', ''b'']], exclude = []\<rparr>), None)
   \<and> MatchPath (MatchGlob \<lparr>include = [[''a'', ''b'']], exclude = []\<rparr>) ''a'' = Some False
   \<and> Match 2 (MatchGlob \<lparr>include = [[''a'', ''b'']], exclude = []\<rparr>)
        (treeFS [(''.'', [(''a'', False)])]) takeAll ''.'' False
       = Returned [EvStat ''a'', EvYield ''a'' None] True
   \<and> New [''a/*''] [] = (Some (MatchGlob \<lparr>include = [[''a'', ''*'']], exclude = []\<rparr>), None)
   \<and> MatchPath (MatchGlob \<lparr>include = [[''a'', ''*'']], exclude = []\<rparr>) ''a'' = Some False
   \<and> Match 3 (MatchGlob \<lparr>include = [[''a'', ''*'']], exclude = []\<rparr>)
        (treeFS [(''.'', [(''a'', True)]), (''a'', [])]) takeAll ''.'' True
       = Returned [EvStat ''a'', EvReadDir ''a'', EvYield ''a'' None] True"
  by code_simp

text \<open>
  C4 at a concrete input. With directories asked for, the walk for \<open>a/*.go\<close> over the
  tree \<open>a/x.go\<close> emits the directory \<open>a\<close>, although advancing the only include pattern
  over the name \<open>a\<close> reports no match (a term is left): the literal fast path passes
  \<open>includeDirs\<close> where the listing path passes that report. With a second include
  pattern the walk goes through the listing and does not emit \<open>a\<close>.
\<close>

theorem literal_fast_path_emits_directory:
  "New [''a/*.go''] [] = (Some (MatchGlob \<lparr>include = [[''a'', ''*.go'']], exclude = []\<rparr>), None)
   \<and> matchDirEach [[''a'', ''*.go'']] ''a'' [] = Some (False, [[''*.go'']])
   \<and> Match 3 (MatchGlob \<lparr>include = [[''a'', ''*.go'']], exclude = []\<rparr>)
        (treeFS [(''.'', [(''a'', True)]), (''a'', [(''x.go'', False)])]) takeAll ''.'' True
       = Returned [EvStat ''a'', EvReadDir ''a'', EvYield ''a'' None, EvYield ''a/x.go'' None] True
   \<and> Match 3 (MatchGlob \<lparr>include = [[''a'', ''*.go''], [''zz'']], exclude = []\<rparr>)
        (treeFS [(''.'', [(''a'', True)]), (''a'', [(''x.go'', False)])]) takeAll ''.'' True
       = Returned [EvReadDir ''.'', EvReadDir ''a'', EvYield ''a/x.go'' None] True"
  by code_simp

subsection \<open>Patterns are never empty\<close>

lemma allNonEmpty_simps [simp]:
  "allNonEmpty []"
  "allNonEmpty (p # ps) \<longleftrightarrow> p \<noteq> [] \<and> allNonEmpty ps"
  "allNonEmpty (ps @ qs) \<longleftrightarrow> allNonEmpty ps \<and> allNonEmpty qs"
  by (simp_all add: allNonEmpty_def)

lemma newPattern_nonEmpty:
  "allNonEmpty patterns \<Longrightarrow> allNonEmpty (fst (newPattern p patterns))"
  by (cases "nonEmptySteps p")
     (auto simp: newPattern_def Let_def drop_Suc split: option.splits list.splits)

lemma newPatternsLoop_nonEmpty:
  "allNonEmpty patterns \<Longrightarrow> allNonEmpty (fst (newPatternsLoop ps patterns errs))"
proof (induction ps arbitrary: patterns errs)
  case Nil
  then show ?case by simp
next
  case (Cons s ps)
  obtain patterns' err where np: "newPattern s patterns = (patterns', err)"
    by (cases "newPattern s patterns") auto
  with newPattern_nonEmpty [OF Cons.prems, of s] have "allNonEmpty patterns'"
    by simp
  from Cons.IH [OF this] np show ?case by simp
qed

lemma newPatterns_nonEmpty: "allNonEmpty (fst (newPatterns ps))"
  using newPatternsLoop_nonEmpty [of "[]" ps "[]"]
  by (cases "newPatternsLoop ps [] []") (simp add: newPatterns_def)

lemma matchDir_total:
  assumes "p \<noteq> []" and "allNonEmpty next"
  shows "\<exists>hit next'. matchDir p name next = Some (hit, next') \<and> allNonEmpty next'"
  using assms by (cases p) (auto simp: matchDir_def Let_def)

lemma matchDirFirst_total:
  "allNonEmpty ps \<Longrightarrow> allNonEmpty next \<Longrightarrow>
   \<exists>hit next'. matchDirFirst ps name next = Some (hit, next') \<and> allNonEmpty next'"
proof (induction ps arbitrary: "next")
  case Nil
  then show ?case by auto
next
  case (Cons p ps)
  then obtain hit next1 where md: "matchDir p name next = Some (hit, next1)" "allNonEmpty next1"
    using matchDir_total [of p "next" name] by auto
  with Cons show ?case by auto
qed

lemma matchDirEach_total:
  "allNonEmpty ps \<Longrightarrow> allNonEmpty next \<Longrightarrow>
   \<exists>hit next'. matchDirEach ps name next = Some (hit, next') \<and> allNonEmpty next'"
proof (induction ps arbitrary: "next")
  case Nil
  then show ?case by auto
next
  case (Cons p ps)
  then obtain hit next1 where md: "matchDir p name next = Some (hit, next1)" "allNonEmpty next1"
    using matchDir_total [of p "next" name] by auto
  from Cons.IH [OF _ md(2)] Cons.prems obtain hit' next2
    where "matchDirEach ps name next1 = Some (hit', next2)" "allNonEmpty next2"
    by auto
  with md show ?case by auto
qed

lemma literal_total:
  assumes "allNonEmpty patterns"
  shows "\<exists>name next ok. literal patterns = Some (name, next, ok) \<and> allNonEmpty next"
proof (cases "length patterns \<noteq> 1")
  case True
  then show ?thesis by (auto simp: literal_def)
next
  case False
  then obtain p where "patterns = [p]"
    by (cases patterns) auto
  with assms show ?thesis
    by (cases p) (auto simp: literal_def)
qed

lemma matchPathLoop_total:
  "allNonEmpty incl \<Longrightarrow> allNonEmpty excl \<Longrightarrow> matchPathLoop names incl excl \<noteq> None"
proof (induction names incl excl rule: matchPathLoop.induct)
  case (1 incl excl)
  show ?case by simp
next
  case (2 lastName incl excl)
  from matchDirFirst_total [OF "2.prems"(2), of "[]" lastName]
  obtain hit ne where e: "matchDirFirst excl lastName [] = Some (hit, ne)"
    by auto
  from matchDirFirst_total [OF "2.prems"(1), of "[]" lastName]
  obtain hit' ni where i: "matchDirFirst incl lastName [] = Some (hit', ni)"
    by auto
  from e i show ?case by auto
next
  case (3 dir v va incl excl)
  from matchDirFirst_total [OF "3.prems"(2), of "[]" dir]
  obtain hit ne where e: "matchDirFirst excl dir [] = Some (hit, ne)" "allNonEmpty ne"
    by auto
  from matchDirEach_total [OF "3.prems"(1), of "[]" dir]
  obtain hit' ni where i: "matchDirEach incl dir [] = Some (hit', ni)" "allNonEmpty ni"
    by auto
  show ?case
  proof (cases "hit \<or> length ni = 0")
    case True
    with e i show ?thesis by auto
  next
    case False
    then have nh: "\<not> hit" and nl: "length ni \<noteq> 0" by auto
    from "3.IH" [OF e(1) refl nh i(1) refl nl i(2) e(2)] e i False
    show ?thesis by auto
  qed
qed

lemma allLoop_no_panic:
  assumes "\<And>d y i l. rec d y i l \<noteq> Panicked"
  shows "allLoop rec k dir includeDirs infos log \<noteq> Panicked"
proof (induction infos arbitrary: log)
  case Nil
  show ?case by simp
next
  case (Cons e infos)
  obtain name isDir where e: "e = (name, isDir)" by (cases e)
  show ?case
    using Cons.IH assms [of "path_Join [dir, name]" True includeDirs log]
    by (auto simp: e split: walk_result.splits prod.splits)
qed

lemma allStep_no_panic: "allStep fuel fsys k dir yieldDir includeDirs log \<noteq> Panicked"
proof (induction fuel arbitrary: dir yieldDir includeDirs log)
  case 0
  show ?case by simp
next
  case (Suc fuel)
  have "allLoop (allStep fuel fsys k) k dir includeDirs infos l \<noteq> Panicked" for infos l
    by (rule allLoop_no_panic) (rule Suc.IH)
  then show ?case
    by (auto simp: Let_def returned_def split: sum.splits prod.splits)
qed

lemma matchLoop_no_panic:
  assumes rec: "\<And>d y i inc exc l. allNonEmpty inc \<Longrightarrow> allNonEmpty exc \<Longrightarrow> rec d y i inc exc l \<noteq> Panicked"
    and "allNonEmpty incl" and "allNonEmpty excl"
  shows "matchLoop rec k dir includeDirs incl excl infos log \<noteq> Panicked"
proof (induction infos arbitrary: log)
  case Nil
  show ?case by simp
next
  case (Cons e infos)
  obtain name isDir where e: "e = (name, isDir)" by (cases e)
  from matchDirFirst_total [OF assms(3), of "[]" name]
  obtain hit ne where ex: "matchDirFirst excl name [] = Some (hit, ne)" "allNonEmpty ne"
    by auto
  from matchDirEach_total [OF assms(2), of "[]" name]
  obtain hit' ni where inc: "matchDirEach incl name [] = Some (hit', ni)" "allNonEmpty ni"
    by auto
  have r: "rec (path_Join [dir, name]) (hit' \<and> includeDirs) includeDirs ni ne log \<noteq> Panicked"
    using rec [OF inc(2) ex(2)] .
  show ?case
    using Cons.IH r
    by (auto simp: e ex inc Let_def split: walk_result.splits prod.splits)
qed

lemma matchStep_no_panic:
  "allNonEmpty incl \<Longrightarrow> allNonEmpty excl \<Longrightarrow>
   matchStep fuel fsys k dir yieldDir includeDirs incl excl log \<noteq> Panicked"
proof (induction fuel arbitrary: dir yieldDir includeDirs incl excl log)
  case 0
  show ?case by simp
next
  case (Suc fuel)
  have ml: "matchLoop (matchStep fuel fsys k) k dir includeDirs inc exc infos l \<noteq> Panicked"
    if "allNonEmpty inc" "allNonEmpty exc" for inc exc infos l
    using that by (intro matchLoop_no_panic Suc.IH)
  have ls: "listStep (matchStep fuel fsys k) fsys k dir yieldDir includeDirs inc exc log \<noteq> Panicked"
    if "allNonEmpty inc" "allNonEmpty exc" for inc exc
    using ml [OF that]
    by (auto simp: listStep_def Let_def returned_def split: sum.splits prod.splits)
  from literal_total [OF Suc.prems(1)] obtain name nx ok
    where lit: "literal incl = Some (name, nx, ok)" "allNonEmpty nx"
    by auto
  have lt: "literalStep (matchStep fuel fsys k) fsys k dir includeDirs name nx excl log \<noteq> Panicked"
  proof -
    from matchDirEach_total [OF Suc.prems(2), of "[]" name]
    obtain hit ne where ex: "matchDirEach excl name [] = Some (hit, ne)" "allNonEmpty ne"
      by auto
    show ?thesis
      using Suc.IH [OF lit(2) ex(2)]
      by (auto simp: literalStep_def Let_def returned_def ex split: sum.splits)
  qed
  show ?case
    using ls [OF Suc.prems] ls [of "[[''**'']]" excl] Suc.prems(2) lt lit allStep_no_panic
    by (simp)
qed

lemma New_MatchGlob:
  assumes "fst (New includes excludes) = Some (MatchGlob g)"
  shows "include g = fst (newPatterns includes) \<and> exclude g = fst (newPatterns excludes)"
  using assms
  by (auto simp: New_def split: if_splits prod.splits option.splits)

text \<open>
  C10. Compilation produces non-empty patterns only; \<open>matchDir\<close> on a non-empty pattern
  does not panic and adds non-empty patterns only, and so does \<open>literal\<close> on a list of
  non-empty patterns (\<open>matchFile\<close> adds none and reads \<open>p[0]\<close> under \<open>len(p) == 1\<close>).
  Hence, for every Glob that \<open>New\<close> returns, neither \<open>MatchPath\<close> nor a walk by
  \<open>Match\<close> panics on the head-term access, on any path, tree, consumer and fuel.
\<close>

theorem head_access_in_bounds:
  "allNonEmpty (fst (newPatterns ps))
   \<and> (p \<noteq> [] \<and> allNonEmpty nxt \<longrightarrow>
        (\<exists>hit next'. matchDir p name nxt = Some (hit, next') \<and> allNonEmpty next'))
   \<and> (allNonEmpty patterns \<longrightarrow>
        (\<exists>nm nx ok. literal patterns = Some (nm, nx, ok) \<and> allNonEmpty nx))
   \<and> (fst (New incs excs) = Some g \<longrightarrow>
        MatchPath g path \<noteq> None \<and> Match fuel g fsys k dir includeDirs \<noteq> Panicked)"
proof (intro conjI impI)
  show "allNonEmpty (fst (newPatterns ps))"
    by (rule newPatterns_nonEmpty)
next
  assume "p \<noteq> [] \<and> allNonEmpty nxt"
  then show "\<exists>hit next'. matchDir p name nxt = Some (hit, next') \<and> allNonEmpty next'"
    using matchDir_total by blast
next
  assume "allNonEmpty patterns"
  then show "\<exists>nm nx ok. literal patterns = Some (nm, nx, ok) \<and> allNonEmpty nx"
    by (rule literal_total)
next
  assume n: "fst (New incs excs) = Some g"
  show "MatchPath g path \<noteq> None"
  proof (cases g)
    case (MatchGlob mg)
    with n New_MatchGlob [of incs excs mg]
    have "allNonEmpty (include mg)" "allNonEmpty (exclude mg)"
      by (simp_all add: newPatterns_nonEmpty)
    with MatchGlob show ?thesis
      by (simp add: matchGlob_MatchPath_def matchPathLoop_total)
  qed simp_all
next
  assume n: "fst (New incs excs) = Some g"
  show "Match fuel g fsys k dir includeDirs \<noteq> Panicked"
  proof (cases g)
    case (MatchGlob mg)
    with n New_MatchGlob [of incs excs mg]
    have "allNonEmpty (include mg)" "allNonEmpty (exclude mg)"
      by (simp_all add: newPatterns_nonEmpty)
    with MatchGlob show ?thesis
      by (simp add: matchStep_no_panic)
  qed (simp_all add: allStep_no_panic)
qed

theorem head_access_in_bounds_witness:
  "(\<exists>hit next'. matchDir [''**'', ''a''] ''x'' [[''b'']] = Some (hit, next') \<and> allNonEmpty next')
   \<and> (\<exists>nm nx ok. literal [[''a'', ''b'']] = Some (nm, nx, ok) \<and> allNonEmpty nx)
   \<and> MatchPath (MatchGlob \<lparr>include = [[''**'', ''a''], [''a'']], exclude = [[''b'']]\<rparr>) ''x/a'' \<noteq> None
   \<and> Match 5 (MatchGlob \<lparr>include = [[''**'', ''a''], [''a'']], exclude = [[''b'']]\<rparr>)
        (treeFS [(''.'', [(''x'', True)]), (''x'', [(''a'', False)])]) takeAll ''.'' True \<noteq> Panicked"
proof -
  have h1: "[''**'', ''a''] \<noteq> [] \<and> allNonEmpty [[''b'']]" by simp
  have h2: "allNonEmpty [[''a'', ''b'']]" by simp
  have h3: "fst (New [''**/a''] [''b''])
              = Some (MatchGlob \<lparr>include = [[''**'', ''a''], [''a'']], exclude = [[''b'']]\<rparr>)"
    by code_simp
  show ?thesis
    using head_access_in_bounds [where p = "[''**'', ''a'']" and nxt = "[[''b'']]"
        and patterns = "[[''a'', ''b'']]" and incs = "[''**/a'']" and excs = "[''b'']"
        and g = "MatchGlob \<lparr>include = [[''**'', ''a''], [''a'']], exclude = [[''b'']]\<rparr>"
        and name = "''x''" and path = "''x/a''" and fuel = 5 and k = takeAll and dir = "''.''"
        and includeDirs = True
        and fsys = "treeFS [(''.'', [(''x'', True)]), (''x'', [(''a'', False)])]"]
      h1 h2 h3
    by blast
qed


subsection \<open>MatchPath against the specification\<close>

lemma matchDir_char:
  "p \<noteq> [] \<Longrightarrow> matchDir p name acc = Some (hitDir p name, acc @ advDir p name)"
  by (cases p) (auto simp: matchDir_def hitDir_def advDir_def Let_def)

lemma allNonEmpty_advDir: "p \<noteq> [] \<Longrightarrow> allNonEmpty (advDir p name)"
  by (cases p) (auto simp: advDir_def)

lemma allNonEmpty_concat_advDir:
  "allNonEmpty ps \<Longrightarrow> allNonEmpty (concat (map (\<lambda>q. advDir q name) ps))"
  by (induction ps) (auto simp: allNonEmpty_advDir)

lemma matchDirEach_char:
  "allNonEmpty ps \<Longrightarrow>
   matchDirEach ps name acc
     = Some (list_ex (\<lambda>q. hitDir q name) ps, acc @ concat (map (\<lambda>q. advDir q name) ps))"
  by (induction ps arbitrary: acc) (auto simp: matchDir_char)

lemma matchDirFirst_hit:
  "allNonEmpty ps \<Longrightarrow>
   \<exists>acc'. matchDirFirst ps name acc = Some (list_ex (\<lambda>q. hitDir q name) ps, acc')"
  by (induction ps arbitrary: acc) (auto simp: matchDir_char)

lemma matchDirFirst_miss:
  "allNonEmpty ps \<Longrightarrow> \<not> list_ex (\<lambda>q. hitDir q name) ps \<Longrightarrow>
   matchDirFirst ps name acc = Some (False, acc @ concat (map (\<lambda>q. advDir q name) ps))"
  by (induction ps arbitrary: acc) (auto simp: matchDir_char)

lemma walkMatch_single: "p \<noteq> [] \<Longrightarrow> walkMatch p [n] \<longleftrightarrow> hitDir p n"
  by (cases p; cases "tl p") (auto simp: hitDir_def)

lemma walkMatch_step:
  "p \<noteq> [] \<Longrightarrow> ns \<noteq> [] \<Longrightarrow>
   walkMatch p (n # ns) \<longleftrightarrow> (\<exists>q\<in>set (advDir p n). walkMatch q ns)"
  by (cases p; cases ns) (auto simp: advDir_def)

lemma allNonEmpty_mem: "allNonEmpty ps \<Longrightarrow> q \<in> set ps \<Longrightarrow> q \<noteq> []"
  by (auto simp: allNonEmpty_def list_all_iff)

lemma incl_step:
  assumes "allNonEmpty incl" and "ns \<noteq> []"
  shows "(\<exists>q\<in>set incl. walkMatch q (n # ns))
     \<longleftrightarrow> (\<exists>r\<in>set (concat (map (\<lambda>q. advDir q n) incl)). walkMatch r ns)"
  using assms walkMatch_step [OF allNonEmpty_mem [OF assms(1)] assms(2), of _ n]
  by auto

lemma excl_step:
  assumes ne: "allNonEmpty excl" and ns: "ns \<noteq> []"
  shows "(\<exists>q\<in>set excl. \<exists>k\<in>{1..length (n # ns)}. walkMatch q (take k (n # ns)))
     \<longleftrightarrow> (\<exists>q\<in>set excl. hitDir q n)
         \<or> (\<exists>r\<in>set (concat (map (\<lambda>q. advDir q n) excl)).
               \<exists>k\<in>{1..length ns}. walkMatch r (take k ns))"
    (is "?L \<longleftrightarrow> ?H \<or> ?R")
proof
  assume ?L
  then obtain q k where q: "q \<in> set excl" and k: "1 \<le> k" "k \<le> Suc (length ns)"
    and w: "walkMatch q (take k (n # ns))"
    by auto
  from ne q have qne: "q \<noteq> []" by (rule allNonEmpty_mem)
  show "?H \<or> ?R"
  proof (cases "k = 1")
    case True
    with w qne have "hitDir q n" by (simp add: walkMatch_single)
    with q show ?thesis by auto
  next
    case False
    with k obtain j where j: "k = Suc j" "1 \<le> j" "j \<le> length ns"
      by (cases k) auto
    with ns have tne: "take j ns \<noteq> []" by (cases ns) auto
    from w j have "walkMatch q (n # take j ns)" by simp
    with walkMatch_step [OF qne tne, of n] obtain r where r: "r \<in> set (advDir q n)"
      "walkMatch r (take j ns)" by auto
    from q r(1) have "r \<in> set (concat (map (\<lambda>q. advDir q n) excl))"
      by auto
    moreover from j have "j \<in> {1..length ns}"
      by simp
    ultimately have ?R
      using r(2) by blast
    then show ?thesis ..
  qed
next
  assume "?H \<or> ?R"
  then show ?L
  proof
    assume ?H
    then obtain q where q: "q \<in> set excl" "hitDir q n" by auto
    with ne have "walkMatch q (take 1 (n # ns))"
      by (simp add: walkMatch_single allNonEmpty_mem)
    with q(1) show ?L by (intro bexI [of _ q] bexI [of _ 1]) auto
  next
    assume ?R
    then obtain q r j where q: "q \<in> set excl" "r \<in> set (advDir q n)"
      and j: "1 \<le> j" "j \<le> length ns" and w: "walkMatch r (take j ns)"
      by auto
    from ne q(1) have qne: "q \<noteq> []" by (rule allNonEmpty_mem)
    from j ns have tne: "take j ns \<noteq> []" by (cases ns) auto
    from walkMatch_step [OF qne tne, of n] q(2) w have "walkMatch q (take (Suc j) (n # ns))"
      by auto
    with q(1) j show ?L by (intro bexI [of _ q] bexI [of _ "Suc j"]) auto
  qed
qed

lemma matchPathLoop_char:
  "allNonEmpty incl \<Longrightarrow> allNonEmpty excl \<Longrightarrow> names \<noteq> [] \<Longrightarrow>
   matchPathLoop names incl excl
     = Some ((\<exists>q\<in>set incl. walkMatch q names)
             \<and> \<not> (\<exists>q\<in>set excl. \<exists>k\<in>{1..length names}. walkMatch q (take k names)))"
proof (induction names arbitrary: incl excl)
  case Nil
  then show ?case by simp
next
  case (Cons n ns)
  note ni = Cons.prems(1) and ne = Cons.prems(2)
  show ?case
  proof (cases ns)
    case Nil
    from matchDirFirst_hit [OF ne, of n "[]"] obtain a1
      where e: "matchDirFirst excl n [] = Some (list_ex (\<lambda>q. hitDir q n) excl, a1)" by auto
    from matchDirFirst_hit [OF ni, of n "[]"] obtain a2
      where i: "matchDirFirst incl n [] = Some (list_ex (\<lambda>q. hitDir q n) incl, a2)" by auto
    have "(\<exists>q\<in>set incl. walkMatch q [n]) \<longleftrightarrow> list_ex (\<lambda>q. hitDir q n) incl"
      using allNonEmpty_mem [OF ni] by (auto simp: list_ex_iff walkMatch_single)
    moreover have "(\<exists>q\<in>set excl. \<exists>k\<in>{1..length [n]}. walkMatch q (take k [n]))
        \<longleftrightarrow> list_ex (\<lambda>q. hitDir q n) excl"
      using allNonEmpty_mem [OF ne] by (auto simp: list_ex_iff walkMatch_single)
    ultimately show ?thesis
      using e i Nil by simp
  next
    case (Cons m ms)
    then have nsne: "ns \<noteq> []" by simp
    let ?ni = "concat (map (\<lambda>q. advDir q n) incl)"
    let ?ne = "concat (map (\<lambda>q. advDir q n) excl)"
    note istep = incl_step [OF ni nsne, of n]
    note estep = excl_step [OF ne nsne, of n]
    show ?thesis
    proof (cases "list_ex (\<lambda>q. hitDir q n) excl")
      case True
      from matchDirFirst_hit [OF ne, of n "[]"] True obtain a1
        where "matchDirFirst excl n [] = Some (True, a1)" by auto
      moreover from True have "\<exists>q\<in>set excl. hitDir q n" by (simp add: list_ex_iff)
      ultimately show ?thesis
        using estep Cons by simp
    next
      case False
      from matchDirFirst_miss [OF ne False, of "[]"]
      have e: "matchDirFirst excl n [] = Some (False, ?ne)" by simp
      from matchDirEach_char [OF ni, of n "[]"]
      have i: "matchDirEach incl n [] = Some (list_ex (\<lambda>q. hitDir q n) incl, ?ni)" by simp
      from False have nh: "\<not> (\<exists>q\<in>set excl. hitDir q n)" by (simp add: list_ex_iff)
      show ?thesis
      proof (cases "?ni = []")
        case True
        with istep have "\<not> (\<exists>q\<in>set incl. walkMatch q (n # ns))" by simp
        with e i True Cons show ?thesis by simp
      next
        case nonempty: False
        have ih: "matchPathLoop ns ?ni ?ne
           = Some ((\<exists>q\<in>set ?ni. walkMatch q ns)
                   \<and> \<not> (\<exists>q\<in>set ?ne. \<exists>k\<in>{1..length ns}. walkMatch q (take k ns)))"
          by (rule Cons.IH [OF allNonEmpty_concat_advDir [OF ni]
                allNonEmpty_concat_advDir [OF ne] nsne])
        have "matchPathLoop (n # ns) incl excl = matchPathLoop ns ?ni ?ne"
          using e i nonempty Cons by auto
        with ih istep estep nh show ?thesis by simp
      qed
    qed
  qed
qed

lemma patternTerms_nonempty: "patternTerms p \<noteq> []"
  by (simp add: patternTerms_def)

lemma newPattern_valid:
  "\<not> rejected p \<Longrightarrow> newPattern p patterns = (patterns @ compiled p, None)"
  by (auto simp: rejected_def newPattern_def compiled_def patternTerms_def Let_def)

lemma newPatternsLoop_valid:
  "\<forall>s\<in>set ps. \<not> rejected s \<Longrightarrow>
   newPatternsLoop ps patterns errs = (patterns @ concat (map compiled ps), errs)"
  by (induction ps arbitrary: patterns errs) (simp_all add: newPattern_valid)

lemma newPatterns_valid:
  "\<forall>s\<in>set ps. \<not> rejected s \<Longrightarrow> fst (newPatterns ps) = concat (map compiled ps)"
  by (simp add: newPatterns_def newPatternsLoop_valid)

lemma New_general_valid:
  assumes "New incs excs = (Some (MatchGlob g), None)"
  shows "include g = concat (map compiled incs) \<and> exclude g = concat (map compiled excs)"
proof -
  from assms have guards: "\<not> (length excs = 0 \<and> ''**'' \<in> set incs)"
    "\<not> (length incs = 0 \<or> ''**'' \<in> set excs)"
    by (auto simp: New_def split: if_splits)
  from snd_New_general(1) [OF guards] assms
  have "errors_Join [errors_Join (map Some (syntaxErrors incs)),
                     errors_Join (map Some (syntaxErrors excs))] = None"
    by simp
  then have "syntaxErrors incs = []" "syntaxErrors excs = []"
    unfolding errors_Join_Somes by (auto simp: errors_Join_def split: if_splits)
  then have v: "\<forall>s\<in>set incs. \<not> rejected s" "\<forall>s\<in>set excs. \<not> rejected s"
    by (simp_all add: syntaxErrors_Nil_iff)
  from assms have "fst (New incs excs) = Some (MatchGlob g)"
    by simp
  from New_MatchGlob [OF this] v show ?thesis
    by (simp add: newPatterns_valid)
qed

lemma no_star_walk_full: "''**'' \<notin> set ts \<Longrightarrow> walkMatch ts ns = fullMatch ts ns"
proof (induction ts arbitrary: ns)
  case Nil
  show ?case by simp
next
  case (Cons t ts)
  then show ?case by (cases ns) auto
qed

lemma walkMatch_star:
  "walkMatch (''**'' # rest) ns \<longleftrightarrow> (\<exists>k\<in>{1..length ns}. walkMatch rest (drop k ns))"
proof (induction ns)
  case Nil
  show ?case by simp
next
  case (Cons n ns)
  have "(\<exists>k\<in>{1..length (n # ns)}. walkMatch rest (drop k (n # ns)))
      \<longleftrightarrow> walkMatch rest ns \<or> (\<exists>k\<in>{1..length ns}. walkMatch rest (drop k ns))"
  proof
    assume "\<exists>k\<in>{1..length (n # ns)}. walkMatch rest (drop k (n # ns))"
    then obtain k where k: "1 \<le> k" "k \<le> Suc (length ns)" "walkMatch rest (drop k (n # ns))"
      by auto
    then obtain j where j: "k = Suc j" by (cases k) auto
    show "walkMatch rest ns \<or> (\<exists>k\<in>{1..length ns}. walkMatch rest (drop k ns))"
    proof (cases j)
      case 0
      with k j show ?thesis by simp
    next
      case (Suc i)
      with k j have "j \<in> {1..length ns}" "walkMatch rest (drop j ns)" by auto
      then show ?thesis by blast
    qed
  next
    assume "walkMatch rest ns \<or> (\<exists>k\<in>{1..length ns}. walkMatch rest (drop k ns))"
    then show "\<exists>k\<in>{1..length (n # ns)}. walkMatch rest (drop k (n # ns))"
    proof
      assume "walkMatch rest ns"
      then have "walkMatch rest (drop 1 (n # ns))" by simp
      then show ?thesis by (intro bexI [of _ 1]) auto
    next
      assume "\<exists>k\<in>{1..length ns}. walkMatch rest (drop k ns)"
      then obtain k where "k \<in> {1..length ns}" "walkMatch rest (drop k ns)" by auto
      then have "Suc k \<in> {1..length (n # ns)}" "walkMatch rest (drop (Suc k) (n # ns))"
        by auto
      then show ?thesis by blast
    qed
  qed
  with Cons show ?case by simp
qed

lemma fullMatch_star:
  "fullMatch (''**'' # rest) ns \<longleftrightarrow> (\<exists>k\<le>length ns. fullMatch rest (drop k ns))"
  by (simp add: list_ex_iff Bex_def less_Suc_eq_le del: upt_Suc)

lemma fullMatch_only_star: "fullMatch [''**''] ns"
  unfolding fullMatch_star by (intro exI [of _ "length ns"]) simp

lemma fullMatch_Nil_no_star: "''**'' \<notin> set ts \<Longrightarrow> fullMatch ts [] \<longleftrightarrow> ts = []"
  by (cases ts) auto

lemma compiled_char:
  assumes r: "''**'' \<notin> set (tl (patternTerms p))" and ns: "ns \<noteq> []"
  shows "(\<exists>q\<in>set (compiled p). walkMatch q ns) \<longleftrightarrow> fullMatch (patternTerms p) ns"
proof -
  obtain t rest where ts: "patternTerms p = t # rest"
    using patternTerms_nonempty [of p] by (cases "patternTerms p") auto
  with r have rs: "''**'' \<notin> set rest" by simp
  show ?thesis
  proof (cases "t = ''**''")
    case False
    with ts rs have "compiled p = [t # rest]" "''**'' \<notin> set (t # rest)"
      by (auto simp: compiled_def)
    with ts no_star_walk_full [of "t # rest" ns] show ?thesis by simp
  next
    case True
    have shift: "(\<exists>k\<le>length ns. fullMatch rest (drop k ns))
        \<longleftrightarrow> fullMatch rest ns \<or> (\<exists>k\<in>{1..length ns}. fullMatch rest (drop k ns))"
    proof
      assume "\<exists>k\<le>length ns. fullMatch rest (drop k ns)"
      then obtain k where k: "k \<le> length ns" "fullMatch rest (drop k ns)" by auto
      then show "fullMatch rest ns \<or> (\<exists>k\<in>{1..length ns}. fullMatch rest (drop k ns))"
        by (cases k) auto
    next
      assume "fullMatch rest ns \<or> (\<exists>k\<in>{1..length ns}. fullMatch rest (drop k ns))"
      then show "\<exists>k\<le>length ns. fullMatch rest (drop k ns)"
      proof
        assume "fullMatch rest ns"
        then have "fullMatch rest (drop 0 ns)" by simp
        then show ?thesis by blast
      qed auto
    qed
    show ?thesis
    proof (cases "rest = []")
      case rnil: True
      with ts True have c: "compiled p = [[''**'']]"
        by (simp add: compiled_def)
      have "walkMatch [''**''] ns"
        unfolding walkMatch_star using ns by (intro bexI [of _ "length ns"]) (auto simp: Suc_le_eq)
      moreover have "fullMatch [''**''] ns"
        by (rule fullMatch_only_star)
      ultimately show ?thesis
        using c ts True rnil by simp
    next
      case rcons: False
      with ts True have c: "compiled p = [''**'' # rest, rest]"
        by (cases rest) (auto simp: compiled_def)
      have "(\<exists>q\<in>set (compiled p). walkMatch q ns)
          \<longleftrightarrow> walkMatch rest ns \<or> (\<exists>k\<in>{1..length ns}. walkMatch rest (drop k ns))"
        unfolding c using walkMatch_star [of rest ns] by auto
      also have "\<dots> \<longleftrightarrow> fullMatch rest ns \<or> (\<exists>k\<in>{1..length ns}. fullMatch rest (drop k ns))"
        using no_star_walk_full [OF rs] by simp
      also have "\<dots> \<longleftrightarrow> fullMatch (patternTerms p) ns"
        unfolding ts True fullMatch_star shift ..
      finally show ?thesis .
    qed
  qed
qed

lemma fullMatch_empty_prefix:
  assumes r: "''**'' \<notin> set (tl (patternTerms p))" and f: "fullMatch (patternTerms p) []"
  shows "fullMatch (patternTerms p) ns"
proof -
  obtain t rest where ts: "patternTerms p = t # rest"
    using patternTerms_nonempty [of p] by (cases "patternTerms p") auto
  with r have rs: "''**'' \<notin> set rest" by simp
  from f ts have t: "t = ''**''" and "fullMatch rest []"
    by (auto split: if_splits)
  with rs have "rest = []" by (simp add: fullMatch_Nil_no_star)
  with ts t show ?thesis
    by (simp only: fullMatch_only_star)
qed

lemma compiled_prefix_char:
  assumes r: "''**'' \<notin> set (tl (patternTerms p))" and ns: "ns \<noteq> []"
  shows "(\<exists>q\<in>set (compiled p). \<exists>k\<in>{1..length ns}. walkMatch q (take k ns))
     \<longleftrightarrow> (\<exists>k\<le>length ns. fullMatch (patternTerms p) (take k ns))"
    (is "?L \<longleftrightarrow> ?R")
proof
  assume ?L
  then obtain q k where q: "q \<in> set (compiled p)" and k: "1 \<le> k" "k \<le> length ns"
    and w: "walkMatch q (take k ns)" by auto
  from k ns have "take k ns \<noteq> []" by (cases ns) auto
  from compiled_char [OF r this] q w have "fullMatch (patternTerms p) (take k ns)" by blast
  with k show ?R by blast
next
  assume ?R
  then obtain k where k: "k \<le> length ns" and f: "fullMatch (patternTerms p) (take k ns)"
    by auto
  show ?L
  proof (cases k)
    case 0
    with f have "fullMatch (patternTerms p) []" by simp
    from fullMatch_empty_prefix [OF r this, of "take 1 ns"]
    have f1: "fullMatch (patternTerms p) (take 1 ns)" .
    from ns have t1: "take 1 ns \<noteq> []" by (cases ns) auto
    from compiled_char [OF r t1] f1 obtain q where "q \<in> set (compiled p)"
      "walkMatch q (take 1 ns)" by blast
    moreover from ns have "1 \<in> {1..length ns}" by (cases ns) auto
    ultimately show ?thesis by blast
  next
    case (Suc j)
    with k ns have tk: "take k ns \<noteq> []" by (cases ns) auto
    from compiled_char [OF r tk] f obtain q where "q \<in> set (compiled p)"
      "walkMatch q (take k ns)" by blast
    moreover from Suc k have "k \<in> {1..length ns}" by simp
    ultimately show ?thesis by blast
  qed
qed

lemma allNonEmpty_compiled: "allNonEmpty (compiled p)"
proof -
  obtain t rest where ts: "patternTerms p = t # rest"
    using patternTerms_nonempty [of p] by (cases "patternTerms p") auto
  then show ?thesis
    by (cases rest) (auto simp: compiled_def Let_def)
qed

lemma allNonEmpty_concat_compiled: "allNonEmpty (concat (map compiled ps))"
  by (induction ps) (simp_all add: allNonEmpty_compiled)

lemma patternTerms_star: "patternTerms ''**'' = [''**'']"
  by code_simp

lemma specMatchPath_iff:
  "specMatchPath incs excs p \<longleftrightarrow>
     (\<exists>i\<in>set incs. fullMatch (patternTerms i) (nonEmptySteps p))
     \<and> \<not> (\<exists>e\<in>set excs. \<exists>k\<le>length (nonEmptySteps p).
             fullMatch (patternTerms e) (take k (nonEmptySteps p)))"
  by (simp add: specMatchPath_def Let_def list_ex_iff Bex_def less_Suc_eq_le del: upt_Suc)

text \<open>
  C2, as the code has it. For every Glob that \<open>New\<close> returns for the include strings
  and the exclude strings, in which \<open>**\<close> occurs only as the first term of a pattern,
  and for every path with at least one non-empty segment, \<open>MatchPath\<close> returns true
  exactly when some include pattern fully matches the segments of the path and no exclude
  pattern fully matches a prefix of them.
\<close>

theorem MatchPath_characterised:
  assumes new: "New incs excs = (Some g, None)"
    and names: "nonEmptySteps p \<noteq> []"
    and stars: "\<forall>s\<in>set (incs @ excs). ''**'' \<notin> set (tl (patternTerms s))"
  shows "MatchPath g p = Some (specMatchPath incs excs p)"
proof (cases g)
  case AllGlob
  with new have "excs = []" and "''**'' \<in> set incs"
    by (auto simp: New_def split: if_splits prod.splits option.splits)
  then have "specMatchPath incs excs p"
    unfolding specMatchPath_iff using patternTerms_star fullMatch_only_star by force
  with AllGlob show ?thesis by simp
next
  case NoneGlob
  with new have "incs = [] \<or> ''**'' \<in> set excs"
    by (auto simp: New_def split: if_splits prod.splits option.splits)
  then have "\<not> specMatchPath incs excs p"
    unfolding specMatchPath_iff using patternTerms_star fullMatch_only_star by force
  with NoneGlob show ?thesis by simp
next
  case (MatchGlob mg)
  let ?ns = "nonEmptySteps p"
  from new MatchGlob New_general_valid [of incs excs mg]
  have ie: "include mg = concat (map compiled incs)" "exclude mg = concat (map compiled excs)"
    by simp_all
  have inc: "(\<exists>q\<in>set (concat (map compiled incs)). walkMatch q ?ns)
      \<longleftrightarrow> (\<exists>i\<in>set incs. fullMatch (patternTerms i) ?ns)"
    using stars compiled_char [OF _ names] by auto
  have exc: "(\<exists>q\<in>set (concat (map compiled excs)). \<exists>k\<in>{1..length ?ns}. walkMatch q (take k ?ns))
      \<longleftrightarrow> (\<exists>e\<in>set excs. \<exists>k\<le>length ?ns. fullMatch (patternTerms e) (take k ?ns))"
  proof -
    have "(\<exists>q\<in>set (compiled e). \<exists>k\<in>{1..length ?ns}. walkMatch q (take k ?ns))
        \<longleftrightarrow> (\<exists>k\<le>length ?ns. fullMatch (patternTerms e) (take k ?ns))"
      if "e \<in> set excs" for e
      using that stars by (intro compiled_prefix_char names) simp
    then show ?thesis by auto
  qed
  have "MatchPath g p = matchPathLoop ?ns (concat (map compiled incs)) (concat (map compiled excs))"
    using MatchGlob ie by (simp add: matchGlob_MatchPath_def)
  also have "\<dots> = Some ((\<exists>q\<in>set (concat (map compiled incs)). walkMatch q ?ns)
      \<and> \<not> (\<exists>q\<in>set (concat (map compiled excs)). \<exists>k\<in>{1..length ?ns}. walkMatch q (take k ?ns)))"
    by (rule matchPathLoop_char [OF allNonEmpty_concat_compiled allNonEmpty_concat_compiled names])
  also have "\<dots> = Some (specMatchPath incs excs p)"
    unfolding inc exc specMatchPath_iff ..
  finally show ?thesis .
qed

theorem MatchPath_characterised_witness:
  "MatchPath (MatchGlob \<lparr>include = [[''**'', ''*.txt''], [''*.txt''], [''a'', ''b'']],
                          exclude = [[''tmp'']]\<rparr>) ''x/y/z.txt''
     = Some (specMatchPath [''**/*.txt'', ''a/b''] [''tmp''] ''x/y/z.txt'')
   \<and> specMatchPath [''**/*.txt'', ''a/b''] [''tmp''] ''x/y/z.txt''
   \<and> \<not> specMatchPath [''**/*.txt'', ''a/b''] [''tmp''] ''tmp/z.txt''"
proof -
  have h1: "New [''**/*.txt'', ''a/b''] [''tmp'']
      = (Some (MatchGlob \<lparr>include = [[''**'', ''*.txt''], [''*.txt''], [''a'', ''b'']],
                            exclude = [[''tmp'']]\<rparr>), None)"
    by code_simp
  have h2: "nonEmptySteps ''x/y/z.txt'' \<noteq> []"
    by code_simp
  have h3: "\<forall>s\<in>set ([''**/*.txt'', ''a/b''] @ [''tmp'']). ''**'' \<notin> set (tl (patternTerms s))"
    by code_simp
  have s1: "specMatchPath [''**/*.txt'', ''a/b''] [''tmp''] ''x/y/z.txt''"
    by code_simp
  have s2: "\<not> specMatchPath [''**/*.txt'', ''a/b''] [''tmp''] ''tmp/z.txt''"
    by code_simp
  from MatchPath_characterised [OF h1 h2 h3] s1 s2 show ?thesis
    by simp
qed

text \<open>
  C2 as stated fails on the empty path: the general strategy returns false there, although
  the include pattern \<open>**\<close> fully matches the empty sequence of segments and the
  exclude pattern \<open>x\<close> matches no prefix of it.
\<close>

theorem MatchPath_empty_path_counterexample:
  "New [''**''] [''x'']
     = (Some (MatchGlob \<lparr>include = [[''**'']], exclude = [[''x'']]\<rparr>), None)
   \<and> MatchPath (MatchGlob \<lparr>include = [[''**'']], exclude = [[''x'']]\<rparr>) [] = Some False
   \<and> specMatchPath [''**''] [''x''] []"
  by code_simp

text \<open>
  A \<open>**\<close> that is not the first term of a pattern takes at least one segment in
  \<open>MatchPath\<close>, so \<open>a/**/b\<close> does not match \<open>a/b\<close>; the theorem above leaves
  such patterns out.
\<close>

lemma MatchPath_inner_star_example:
  "New [''a/**/b''] []
     = (Some (MatchGlob \<lparr>include = [[''a'', ''**'', ''b'']], exclude = []\<rparr>), None)
   \<and> MatchPath (MatchGlob \<lparr>include = [[''a'', ''**'', ''b'']], exclude = []\<rparr>) ''a/b'' = Some False
   \<and> MatchPath (MatchGlob \<lparr>include = [[''a'', ''**'', ''b'']], exclude = []\<rparr>) ''a/x/b'' = Some True
   \<and> specMatchPath [''a/**/b''] [] ''a/b''"
  by code_simp


subsection \<open>Pruning\<close>

text \<open>
  What the listing path does with a directory entry that is pruned (an exclude pattern
  reports a match on its name, or advancing the include patterns over its name leaves no
  pattern): at most it yields the entry, and it goes on with the next entry; it asks the
  file system nothing and makes no recursive call.
\<close>

lemma matchLoop_pruned_directory:
  assumes "matchDirFirst excl name [] = Some (excluded, nextExclude)"
    and "excluded \<or> matchDirEach incl name [] = Some (hit, [])"
  shows "matchLoop rec k dir includeDirs incl excl ((name, True) # infos) log =
           (if \<not> excluded \<and> hit \<and> includeDirs
            then (case yield k log (path_Join [dir, name]) None of (log', ok) \<Rightarrow>
                    if \<not> ok then Returned log' False
                    else matchLoop rec k dir includeDirs incl excl infos log')
            else matchLoop rec k dir includeDirs incl excl infos log)"
  using assms by (auto simp: Let_def)

text \<open>
  C6 at a concrete input. In the listing of the start directory, advancing the include
  patterns of \<open>z/../a/*\<close> and \<open>zzz\<close> over the name \<open>a\<close> leaves no pattern, so the
  directory \<open>a\<close> is pruned there. The walk then enters \<open>z\<close>, where the literal fast
  path probes \<open>path.Join("z", "..")\<close>, which is the start directory, goes on from it to
  \<open>a\<close> and lists \<open>a\<close>. (\<open>MatchPath\<close> rejects the path \<open>a/x\<close> that the walk emits.)
\<close>

theorem pruned_directory_listed:
  "New [''z/../a/*'', ''zzz''] []
     = (Some (MatchGlob \<lparr>include = [[''z'', ''..'', ''a'', ''*''], [''zzz'']], exclude = []\<rparr>), None)
   \<and> matchDirEach [[''z'', ''..'', ''a'', ''*''], [''zzz'']] ''a'' [] = Some (False, [])
   \<and> Match 5 (MatchGlob \<lparr>include = [[''z'', ''..'', ''a'', ''*''], [''zzz'']], exclude = []\<rparr>)
        (treeFS [(''.'', [(''a'', True), (''z'', True)]), (''a'', [(''x'', False)]), (''z'', [])])
        takeAll ''.'' False
       = Returned [EvReadDir ''.'', EvStat ''.'', EvStat ''a'', EvReadDir ''a'',
                   EvYield ''a/x'' None] True
   \<and> MatchPath (MatchGlob \<lparr>include = [[''z'', ''..'', ''a'', ''*''], [''zzz'']], exclude = []\<rparr>)
        ''a/x'' = Some False"
  by code_simp

subsection \<open>The validation of the whole string and the validation by terms\<close>

text \<open>\<open>newPattern\<close> validates the pattern string before it splits it into terms.
  On the empty name \<open>path.Match\<close> only validates: its error is that of
  \<open>validateRest\<close>, and the error of a chunk is \<open>chunkError\<close>.\<close>

lemma matchChunkLoop_failed_ok: "fst (snd (matchChunkLoop c [] True)) = False"
proof (induction c "[] :: string" True rule: matchChunkLoop.induct)
  case (1 chunk)
  show ?case
  proof (cases chunk)
    case Nil
    then show ?thesis by (subst matchChunkLoop.simps) simp
  next
    case (Cons c cs)
    show ?thesis
      using 1 Cons
      apply (subst matchChunkLoop.simps)
      apply (simp add: Let_def split: prod.splits option.splits)
      done
  qed
qed

lemma chunkError_Nil: "chunkError [] = None"
  unfolding chunkError_def by (subst matchChunkLoop.simps) simp

lemma chunkError_Cons:
  "chunkError (c # cs) =
     (if c = CHR ''['' then
        (case classLoop (if cs \<noteq> [] \<and> hd cs = CHR ''^'' then tl cs else cs) 0 False 0 of
           (chunk3, matched, err) \<Rightarrow>
             (case err of Some e \<Rightarrow> Some e | None \<Rightarrow> chunkError chunk3))
      else if c = CHR ''?'' then chunkError cs
      else if c = CHR 0x5C then (case cs of [] \<Rightarrow> Some ErrBadPattern | d # ds \<Rightarrow> chunkError ds)
      else chunkError cs)"
  unfolding chunkError_def
  apply (subst matchChunkLoop.simps)
  apply (simp add: Let_def split: prod.splits option.splits list.splits)
  done

lemma matchChunkLoop_False_True:
  "c \<noteq> [] \<Longrightarrow> matchChunkLoop c [] False = matchChunkLoop c [] True"
  by (cases c) (simp_all add: matchChunkLoop.simps [of _ "[]" False] matchChunkLoop.simps [of _ "[]" True])

lemma matchChunk_err: "snd (snd (matchChunk c [])) = chunkError c"
proof (cases c)
  case Nil
  then show ?thesis
    by (simp add: matchChunk_def chunkError_Nil matchChunkLoop.simps [of "[]"])
next
  case Cons
  then show ?thesis
    by (simp add: matchChunk_def matchChunkLoop_False_True chunkError_def)
qed

lemma matchChunk_not_ok: "c \<noteq> [] \<Longrightarrow> \<not> fst (snd (matchChunk c []))"
  by (simp add: matchChunk_def matchChunkLoop_False_True matchChunkLoop_failed_ok)

lemma validateRest_Nil: "validateRest [] = None"
  by (subst validateRest.simps) simp

lemma scanChunk_chunk_nonempty:
  assumes "p \<noteq> []" and "scanChunk p = (star, chunk, rest)" and "chunk = []"
  shows "star \<and> rest = []"
proof -
  define q where "q = dropWhile (\<lambda>c. c = CHR ''*'') p"
  from assms(2) have sl: "scanLoop q False = (chunk, rest)" and st: "star = (p \<noteq> [] \<and> hd p = CHR ''*'')"
    by (auto simp: scanChunk_def q_def Let_def split: prod.splits)
  have "q = []"
  proof (rule ccontr)
    assume "q \<noteq> []"
    moreover then have "hd q \<noteq> CHR ''*''"
      unfolding q_def using hd_dropWhile [of "\<lambda>c. c = CHR ''*''" p] by simp
    ultimately have "fst (scanLoop q False) \<noteq> []" by (rule scanLoop_progress)
    with sl assms(3) show False by simp
  qed
  with sl have "rest = []" by simp
  moreover from \<open>q = []\<close> assms(1) have "hd p = CHR ''*''"
    unfolding q_def by (cases p) (auto split: if_splits)
  ultimately show ?thesis using st assms(1) by simp
qed

lemma validateRest_unfold:
  "p \<noteq> [] \<Longrightarrow> scanChunk p = (star, chunk, rest) \<Longrightarrow>
   validateRest p = (case chunkError chunk of Some e \<Rightarrow> Some e | None \<Rightarrow> validateRest rest)"
  using matchChunk_err [of chunk]
  by (subst validateRest.simps) (auto split: prod.splits)

lemma path_Match_empty_name: "snd (path_Match p []) = validateRest p"
proof (cases "p = []")
  case True
  then show ?thesis by (subst path_Match.simps) (simp add: validateRest_Nil)
next
  case False
  obtain star chunk rest where sc: "scanChunk p = (star, chunk, rest)"
    by (cases "scanChunk p") auto
  obtain t ok err where mc: "matchChunk chunk [] = (t, ok, err)"
    by (cases "matchChunk chunk []") auto
  with matchChunk_err [of chunk] have err: "err = chunkError chunk" by simp
  show ?thesis
  proof (cases "chunk = []")
    case True
    with scanChunk_chunk_nonempty [OF False sc] have "star" "rest = []" by simp_all
    with True False sc show ?thesis
      by (subst path_Match.simps)
         (simp add: validateRest_unfold [OF False sc] chunkError_Nil validateRest_Nil)
  next
    case cne: False
    with mc matchChunk_not_ok [of chunk] have "\<not> ok" by simp
    with False sc mc err cne show ?thesis
      by (subst path_Match.simps)
         (simp add: validateRest_unfold [OF False sc] split: option.splits)
  qed
qed

text \<open>A rune encoded on several bytes is made of bytes above \<open>0x7f\<close>, none of which is
  a bracket, a backslash or the separator; a byte that does not decode is followed by the
  text as it stands.\<close>

lemma high_inert: "(0x80::int) \<le> of_char x \<Longrightarrow> inert x \<and> x \<noteq> CHR ''/''"
  unfolding inert_def by auto

lemma Decode_Cons_cases:
  obtains (one) "cs = []" | (two) a where "cs = [a]" | (three) a b where "cs = [a, b]"
  | (more) a b d es where "cs = a # b # d # es"
  by (cases cs; cases "tl cs"; cases "tl (tl cs)") auto

lemma Decode_valid:
  assumes "DecodeRuneInString (c0 # cs) = (r, n)" and "\<not> (r = RuneError \<and> n = 1)"
  shows "0 < n \<and> n \<le> Suc (length cs) \<and> DecodeRuneInString (c0 # cs @ y) = (r, n)
         \<and> (\<forall>x\<in>set (take (n - 1) cs). (0x80::int) \<le> of_char x)"
proof (cases "utf8_first (of_char c0)")
  case None
  with assms show ?thesis
    by (auto simp: DecodeRuneInString_def Let_def split: if_splits)
next
  case (Some t)
  obtain sz lo hi where t: "t = (sz, lo, hi)" by (cases t) auto
  from Some t have sz: "sz = 2 \<or> sz = 3 \<or> sz = 4" and lo: "0x80 \<le> lo"
    by (auto simp: utf8_first_def split: if_splits)
  show ?thesis
  proof (cases cs rule: Decode_Cons_cases)
    case one
    with assms Some t sz show ?thesis
      by (auto simp: DecodeRuneInString_def Let_def split: if_splits)
  next
    case (two a)
    with assms Some t sz lo show ?thesis
      by (auto simp: DecodeRuneInString_def Let_def split: if_splits)
  next
    case (three a b)
    with assms Some t sz lo show ?thesis
      by (auto simp: DecodeRuneInString_def Let_def split: if_splits)
  next
    case (more a b d es)
    with assms Some t sz lo show ?thesis
      by (auto simp: DecodeRuneInString_def Let_def split: if_splits)
  qed
qed

lemma Decode_invalid_slash:
  assumes "DecodeRuneInString (c0 # cs) = (RuneError, 1)"
  shows "DecodeRuneInString (c0 # cs @ CHR ''/'' # a) = (RuneError, 1)"
proof (cases "utf8_first (of_char c0)")
  case None
  with assms show ?thesis
    by (auto simp: DecodeRuneInString_def Let_def RuneError_def split: if_splits)
next
  case (Some t)
  obtain sz lo hi where t: "t = (sz, lo, hi)" by (cases t) auto
  from Some t have sz: "sz = 2 \<or> sz = 3 \<or> sz = 4" and lo: "0x80 \<le> lo"
    by (auto simp: utf8_first_def split: if_splits)
  show ?thesis
  proof (cases cs rule: Decode_Cons_cases)
    case one
    with assms Some t sz lo show ?thesis
      by (auto simp: DecodeRuneInString_def Let_def split: if_splits)
  next
    case (two a)
    with assms Some t sz lo show ?thesis
      by (auto simp: DecodeRuneInString_def Let_def split: if_splits)
  next
    case (three a b)
    with assms Some t sz lo show ?thesis
      by (auto simp: DecodeRuneInString_def Let_def split: if_splits)
  next
    case (more a b d es)
    with assms Some t sz lo show ?thesis
      by (auto simp: DecodeRuneInString_def Let_def split: if_splits)
  qed
qed

lemma crude_inert: "\<forall>x\<in>set xs. inert x \<Longrightarrow> crude (xs @ ys) True = crude ys True"
  by (induction xs) (auto simp: inert_def)

lemma crude_high: "\<forall>x\<in>set xs. (0x80::int) \<le> of_char x \<Longrightarrow> crude (xs @ ys) True = crude ys True"
  by (rule crude_inert) (auto dest: high_inert)

text \<open>\<open>getEsc\<close> and the loop of the class on a text followed by more text: a success is
  kept, and passes the same brackets as \<open>crude\<close>; an error is kept before a
  separator, unless the text ends inside brackets or in a backslash.\<close>

lemma getEsc_ok:
  assumes "getEsc c = (r, nc, None)"
  shows "nc \<noteq> [] \<and> getEsc (c @ y) = (r, nc @ y, None) \<and> crude c True = crude nc True"
proof (cases c)
  case Nil
  with assms show ?thesis by (simp add: getEsc_def)
next
  case (Cons c0 cs)
  from assms Cons have c0: "c0 \<noteq> CHR ''-''" "c0 \<noteq> CHR '']''" and esc: "c0 = CHR 0x5C \<longrightarrow> cs \<noteq> []"
    by (auto simp: getEsc_def split: if_splits)
  define chunk1 where "chunk1 = (if c0 = CHR 0x5C then cs else c)"
  from esc Cons obtain d0 ds where ch1: "chunk1 = d0 # ds"
    by (cases chunk1) (auto simp: chunk1_def split: if_splits)
  obtain r' n where dec: "DecodeRuneInString (d0 # ds) = (r', n)"
    by (cases "DecodeRuneInString (d0 # ds)") auto
  from assms Cons c0 esc ch1 dec have valid: "\<not> (r' = RuneError \<and> n = 1)" and r: "r' = r"
    and nc: "nc = drop n (d0 # ds)" and ncne: "nc \<noteq> []"
    by (auto simp: getEsc_def chunk1_def Let_def split: if_splits)
  from Decode_valid [OF dec valid, of y]
  have n: "0 < n" "n \<le> Suc (length ds)" and decy: "DecodeRuneInString (d0 # ds @ y) = (r', n)"
    and high: "\<forall>x\<in>set (take (n - 1) ds). (0x80::int) \<le> of_char x"
    by auto
  from n nc have nc': "nc = drop (n - 1) ds" by (cases n) auto
  from n have dropy: "drop n (d0 # ds @ y) = drop (n - 1) ds @ y" by (cases n) auto
  have ds: "ds = take (n - 1) ds @ nc" by (simp add: nc')
  have cr: "crude ds True = crude nc True"
    using crude_high [OF high, of nc] ds by simp
  have g: "getEsc (c @ y) = (r, nc @ y, None)"
  proof (cases "c0 = CHR 0x5C")
    case True
    with Cons ch1 have "c @ y = CHR 0x5C # d0 # ds @ y" by (simp add: chunk1_def)
    then show ?thesis
      using decy valid r dropy nc' ncne n by (auto simp: getEsc_def Let_def)
  next
    case False
    with Cons ch1 have "c @ y = d0 # ds @ y" "d0 = c0" by (simp_all add: chunk1_def)
    then show ?thesis
      using False c0 decy valid r dropy nc' ncne n by (auto simp: getEsc_def Let_def)
  qed
  have "crude c True = crude ds True"
    using Cons c0 ch1 by (auto simp: chunk1_def split: if_splits)
  with cr g ncne show ?thesis by simp
qed

lemma getEsc_error:
  assumes "getEsc c = (r, nc, Some e)"
  shows "fst (crude c True) \<or> snd (snd (getEsc (c @ CHR ''/'' # a))) \<noteq> None"
proof (cases c)
  case Nil
  then show ?thesis by simp
next
  case (Cons c0 cs)
  show ?thesis
  proof (cases "c0 = CHR ''-'' \<or> c0 = CHR '']'' \<or> (c0 = CHR 0x5C \<and> cs = [])")
    case True
    with Cons show ?thesis by (auto simp: getEsc_def)
  next
    case False
    define chunk1 where "chunk1 = (if c0 = CHR 0x5C then cs else c)"
    from False Cons obtain d0 ds where ch1: "chunk1 = d0 # ds"
      by (cases chunk1) (auto simp: chunk1_def split: if_splits)
    obtain r' n where dec: "DecodeRuneInString (d0 # ds) = (r', n)"
      by (cases "DecodeRuneInString (d0 # ds)") auto
    have cds: "crude c True = crude ds True"
      using Cons False ch1 by (auto simp: chunk1_def split: if_splits)
    show ?thesis
    proof (cases "r' = RuneError \<and> n = 1")
      case True
      with dec Decode_invalid_slash [of d0 ds a]
      have "DecodeRuneInString (d0 # ds @ CHR ''/'' # a) = (RuneError, 1)" by simp
      with Cons False ch1 show ?thesis
        by (auto simp: getEsc_def chunk1_def Let_def split: if_splits)
    next
      case valid: False
      from assms Cons False ch1 dec valid have "drop n (d0 # ds) = []"
        by (auto simp: getEsc_def chunk1_def Let_def split: if_splits)
      moreover from Decode_valid [OF dec valid, of "[]"]
      have n: "0 < n" "n \<le> Suc (length ds)"
        and high: "\<forall>x\<in>set (take (n - 1) ds). (0x80::int) \<le> of_char x"
        by auto
      ultimately have "take (n - 1) ds = ds" by (cases n) auto
      with high crude_high [of ds "[]"] have "crude ds True = (True, False)" by simp
      with cds show ?thesis by simp
    qed
  qed
qed

lemma classLoop_closing:
  "chunk \<noteq> [] \<Longrightarrow> hd chunk = CHR '']'' \<Longrightarrow> 0 < nrange \<Longrightarrow>
   classLoop chunk r matched nrange = (tl chunk, matched, None)"
  by (subst classLoop.simps) simp

lemma classLoop_nodash:
  assumes "\<not> (chunk \<noteq> [] \<and> hd chunk = CHR '']'' \<and> 0 < nrange)"
    and "getEsc chunk = (lo, chunk1, None)" and "hd chunk1 \<noteq> CHR ''-''"
  shows "classLoop chunk r matched nrange
           = classLoop chunk1 r (matched \<or> (lo \<le> r \<and> r \<le> lo)) (nrange + 1)"
  using assms by (subst classLoop.simps) auto

lemma classLoop_dash:
  assumes "\<not> (chunk \<noteq> [] \<and> hd chunk = CHR '']'' \<and> 0 < nrange)"
    and "getEsc chunk = (lo, chunk1, None)" and "hd chunk1 = CHR ''-''"
    and "getEsc (tl chunk1) = (hi, chunk2, None)"
  shows "classLoop chunk r matched nrange
           = classLoop chunk2 r (matched \<or> (lo \<le> r \<and> r \<le> hi)) (nrange + 1)"
  using assms by (subst classLoop.simps) auto

lemma classLoop_err1:
  assumes "\<not> (chunk \<noteq> [] \<and> hd chunk = CHR '']'' \<and> 0 < nrange)"
    and "getEsc chunk = (lo, chunk1, Some e)"
  shows "classLoop chunk r matched nrange = ([], False, Some e)"
  using assms by (subst classLoop.simps) auto

lemma classLoop_err2:
  assumes "\<not> (chunk \<noteq> [] \<and> hd chunk = CHR '']'' \<and> 0 < nrange)"
    and "getEsc chunk = (lo, chunk1, None)" and "hd chunk1 = CHR ''-''"
    and "getEsc (tl chunk1) = (hi, chunk2, Some e)"
  shows "classLoop chunk r matched nrange = ([], False, Some e)"
  using assms by (subst classLoop.simps) auto

lemma getEsc_Nil: "snd (snd (getEsc [])) \<noteq> None"
  by (simp add: getEsc_def)

lemma classLoop_ok_append:
  "classLoop c r m n = (c3, m', None) \<Longrightarrow>
   classLoop (c @ y) r m n = (c3 @ y, m', None) \<and> crude c True = crude c3 False"
proof (induction c r m n arbitrary: c3 m' rule: classLoop.induct)
  case (1 chunk r matched nrange)
  show ?case
  proof (cases "chunk \<noteq> [] \<and> hd chunk = CHR '']'' \<and> 0 < nrange")
    case True
    then obtain c' where c: "chunk = CHR '']'' # c'" by (cases chunk) auto
    from True "1.prems" have "c3 = c'" "m' = matched"
      by (simp_all add: classLoop_closing c)
    moreover have "classLoop (chunk @ y) r matched nrange = (c' @ y, matched, None)"
      using True c by (simp add: classLoop_closing)
    ultimately show ?thesis using c by simp
  next
    case False
    obtain lo chunk1 err where g1: "getEsc chunk = (lo, chunk1, err)"
      by (cases "getEsc chunk") auto
    have err: "err = None"
    proof (cases err)
      case (Some e)
      with classLoop_err1 [OF False, of lo chunk1 e r matched] g1 "1.prems" show ?thesis by simp
    qed simp
    note g1 = g1 [unfolded err]
    from getEsc_ok [OF g1, of y]
    have c1ne: "chunk1 \<noteq> []" and g1y: "getEsc (chunk @ y) = (lo, chunk1 @ y, None)"
      and cr1: "crude chunk True = crude chunk1 True" by auto
    from g1 have cne: "chunk \<noteq> []" by (auto simp: getEsc_def)
    with False have Fy: "\<not> (chunk @ y \<noteq> [] \<and> hd (chunk @ y) = CHR '']'' \<and> 0 < nrange)"
      by auto
    from c1ne have hdy: "hd (chunk1 @ y) = hd chunk1" and tly: "tl (chunk1 @ y) = tl chunk1 @ y"
      by simp_all
    show ?thesis
    proof (cases "hd chunk1 = CHR ''-''")
      case dash: True
      obtain hi chunk2 err2 where g2: "getEsc (tl chunk1) = (hi, chunk2, err2)"
        by (cases "getEsc (tl chunk1)") auto
      have err2: "err2 = None"
      proof (cases err2)
        case (Some e)
        with classLoop_err2 [OF False g1 dash, of hi chunk2 e r matched] g2 "1.prems"
        show ?thesis by simp
      qed simp
      note g2 = g2 [unfolded err2]
      from getEsc_ok [OF g2, of y]
      have g2y: "getEsc (tl chunk1 @ y) = (hi, chunk2 @ y, None)"
        and cr2: "crude (tl chunk1) True = crude chunk2 True" by auto
      from "1.prems" classLoop_dash [OF False g1 dash g2, of r matched]
      have rec: "classLoop chunk2 r (matched \<or> (lo \<le> r \<and> r \<le> hi)) (nrange + 1) = (c3, m', None)"
        by simp
      from "1.IH"(1) [OF False g1 [symmetric] refl refl dash g2 [symmetric] refl refl rec]
      have ih: "classLoop (chunk2 @ y) r (matched \<or> (lo \<le> r \<and> r \<le> hi)) (nrange + 1)
                  = (c3 @ y, m', None)" "crude chunk2 True = crude c3 False"
        by auto
      have "classLoop (chunk @ y) r matched nrange = (c3 @ y, m', None)"
        using classLoop_dash [OF Fy g1y, of hi "chunk2 @ y" r matched] dash g2y ih(1)
        by (simp add: hdy tly)
      moreover from c1ne dash have "crude chunk1 True = crude (tl chunk1) True"
        by (cases chunk1) auto
      ultimately show ?thesis using cr1 cr2 ih(2) by simp
    next
      case nodash: False
      from "1.prems" classLoop_nodash [OF False g1 nodash, of r matched]
      have rec: "classLoop chunk1 r (matched \<or> (lo \<le> r \<and> r \<le> lo)) (nrange + 1) = (c3, m', None)"
        by simp
      from "1.IH"(2) [OF False g1 [symmetric] refl refl nodash rec]
      have ih: "classLoop (chunk1 @ y) r (matched \<or> (lo \<le> r \<and> r \<le> lo)) (nrange + 1)
                  = (c3 @ y, m', None)" "crude chunk1 True = crude c3 False"
        by auto
      have "classLoop (chunk @ y) r matched nrange = (c3 @ y, m', None)"
        using classLoop_nodash [OF Fy g1y, of r matched] nodash ih(1)
        by (simp add: hdy)
      with cr1 ih(2) show ?thesis by simp
    qed
  qed
qed

lemma classLoop_error_slash:
  "snd (snd (classLoop c r m n)) \<noteq> None \<Longrightarrow> \<not> fst (crude c True) \<Longrightarrow>
   snd (snd (classLoop (c @ CHR ''/'' # a) r m n)) \<noteq> None"
proof (induction c r m n rule: classLoop.induct)
  case (1 chunk r matched nrange)
  let ?y = "CHR ''/'' # a"
  note bad = "1.prems"(1) and nin = "1.prems"(2)
  show ?case
  proof (cases "chunk \<noteq> [] \<and> hd chunk = CHR '']'' \<and> 0 < nrange")
    case True
    with bad show ?thesis by (simp add: classLoop_closing)
  next
    case False
    from nin have cne: "chunk \<noteq> []" by (cases chunk) auto
    with False have Fy: "\<not> (chunk @ ?y \<noteq> [] \<and> hd (chunk @ ?y) = CHR '']'' \<and> 0 < nrange)"
      by auto
    obtain lo chunk1 err where g1: "getEsc chunk = (lo, chunk1, err)"
      by (cases "getEsc chunk") auto
    show ?thesis
    proof (cases err)
      case (Some e)
      with g1 getEsc_error [of chunk lo chunk1 e a] nin
      obtain lo' c1' e' where "getEsc (chunk @ ?y) = (lo', c1', Some e')"
        by (cases "getEsc (chunk @ ?y)") auto
      from classLoop_err1 [OF Fy this] show ?thesis by simp
    next
      case None
      note g1 = g1 [unfolded None]
      from getEsc_ok [OF g1, of ?y]
      have c1ne: "chunk1 \<noteq> []" and g1y: "getEsc (chunk @ ?y) = (lo, chunk1 @ ?y, None)"
        and cr1: "crude chunk True = crude chunk1 True" by auto
      from c1ne have hdy: "hd (chunk1 @ ?y) = hd chunk1"
        and tly: "tl (chunk1 @ ?y) = tl chunk1 @ ?y"
        by simp_all
      show ?thesis
      proof (cases "hd chunk1 = CHR ''-''")
        case dash: True
        from c1ne dash have crt: "crude chunk1 True = crude (tl chunk1) True"
          by (cases chunk1) auto
        obtain hi chunk2 err2 where g2: "getEsc (tl chunk1) = (hi, chunk2, err2)"
          by (cases "getEsc (tl chunk1)") auto
        show ?thesis
        proof (cases err2)
          case (Some e)
          with g2 getEsc_error [of "tl chunk1" hi chunk2 e a] nin cr1 crt
          obtain hi' c2' e' where "getEsc (tl chunk1 @ ?y) = (hi', c2', Some e')"
            by (cases "getEsc (tl chunk1 @ ?y)") auto
          with classLoop_err2 [OF Fy g1y, of hi' c2' e'] dash show ?thesis
            by (simp add: hdy tly)
        next
          case None
          note g2 = g2 [unfolded None]
          from getEsc_ok [OF g2, of ?y]
          have g2y: "getEsc (tl chunk1 @ ?y) = (hi, chunk2 @ ?y, None)"
            and cr2: "crude (tl chunk1) True = crude chunk2 True" by auto
          from bad classLoop_dash [OF False g1 dash g2, of r matched]
          have b2: "snd (snd (classLoop chunk2 r (matched \<or> (lo \<le> r \<and> r \<le> hi)) (nrange + 1))) \<noteq> None"
            by simp
          from nin cr1 crt cr2 have n2: "\<not> fst (crude chunk2 True)" by simp
          from "1.IH"(1) [OF False g1 [symmetric] refl refl dash g2 [symmetric] refl refl b2 n2]
          show ?thesis
            using classLoop_dash [OF Fy g1y, of hi "chunk2 @ ?y" r matched] dash g2y
            by (simp add: hdy tly)
        qed
      next
        case nodash: False
        from bad classLoop_nodash [OF False g1 nodash, of r matched]
        have b1: "snd (snd (classLoop chunk1 r (matched \<or> (lo \<le> r \<and> r \<le> lo)) (nrange + 1))) \<noteq> None"
          by simp
        from nin cr1 have n1: "\<not> fst (crude chunk1 True)" by simp
        from "1.IH"(2) [OF False g1 [symmetric] refl refl nodash b1 n1]
        show ?thesis
          using classLoop_nodash [OF Fy g1y, of r matched] nodash
          by (simp add: hdy)
      qed
    qed
  qed
qed

text \<open>The error of a chunk that ends outside brackets, followed by a separator and more
  text, is the error of one of the two parts.\<close>

lemma chunkError_slash:
  "crude p False = (False, False) \<Longrightarrow>
   chunkError (p @ CHR ''/'' # a) \<noteq> None \<longleftrightarrow> chunkError p \<noteq> None \<or> chunkError a \<noteq> None"
proof (induction p rule: length_induct)
  case (1 p)
  let ?y = "CHR ''/'' # a"
  note cr = "1.prems"
  show ?case
  proof (cases p)
    case Nil
    then show ?thesis by (simp add: chunkError_Nil chunkError_Cons)
  next
    case (Cons c cs)
    show ?thesis
    proof (cases "c = CHR ''[''")
      case True
      with cr Cons have crcs: "crude cs True = (False, False)" by simp
      then have csne: "cs \<noteq> []" by (cases cs) auto
      define chunk2 where "chunk2 = (if cs \<noteq> [] \<and> hd cs = CHR ''^'' then tl cs else cs)"
      have c2y: "(if cs @ ?y \<noteq> [] \<and> hd (cs @ ?y) = CHR ''^'' then tl (cs @ ?y) else cs @ ?y)
                   = chunk2 @ ?y"
        using csne by (simp add: chunk2_def)
      have cr2: "crude chunk2 True = (False, False)"
        using crcs csne by (cases cs) (auto simp: chunk2_def split: if_splits)
      have len2: "length chunk2 \<le> length cs" by (simp add: chunk2_def)
      obtain c3 mt err where cl: "classLoop chunk2 0 False 0 = (c3, mt, err)"
        by (cases "classLoop chunk2 0 False 0") auto
      have pe: "chunkError p = (case err of Some e \<Rightarrow> Some e | None \<Rightarrow> chunkError c3)"
        using Cons True cl by (simp add: chunkError_Cons chunk2_def)
      show ?thesis
      proof (cases err)
        case None
        from classLoop_ok_append [OF cl [unfolded None], of ?y]
        have cly: "classLoop (chunk2 @ ?y) 0 False 0 = (c3 @ ?y, mt, None)"
          and cr3: "crude c3 False = (False, False)" using cr2 by auto
        from classLoop_shorter [OF cl [unfolded None]] len2 Cons
        have "length c3 < length p" by simp
        with "1.IH" cr3 have ih: "chunkError (c3 @ ?y) \<noteq> None \<longleftrightarrow>
            chunkError c3 \<noteq> None \<or> chunkError a \<noteq> None" by blast
        have "chunkError (p @ ?y) = chunkError (c3 @ ?y)"
          using Cons True cly c2y by (simp add: chunkError_Cons)
        with ih pe None show ?thesis by simp
      next
        case (Some e)
        from classLoop_error_slash [of chunk2 0 False 0 a] cl Some cr2
        have "snd (snd (classLoop (chunk2 @ ?y) 0 False 0)) \<noteq> None" by simp
        then have "chunkError (p @ ?y) \<noteq> None"
          using Cons True c2y by (auto simp: chunkError_Cons split: prod.splits option.splits)
        with pe Some show ?thesis by simp
      qed
    next
      case nb: False
      show ?thesis
      proof (cases "c = CHR 0x5C")
        case True
        with cr Cons obtain d ds where cs: "cs = d # ds" and crds: "crude ds False = (False, False)"
          by (cases cs) auto
        with Cons have "length ds < length p" by simp
        with "1.IH" crds have "chunkError (ds @ ?y) \<noteq> None \<longleftrightarrow>
            chunkError ds \<noteq> None \<or> chunkError a \<noteq> None" by blast
        with Cons True cs show ?thesis by (simp add: chunkError_Cons)
      next
        case False
        with nb cr Cons have crcs: "crude cs False = (False, False)"
          by (auto split: if_splits)
        from Cons have "length cs < length p" by simp
        with "1.IH" crcs have "chunkError (cs @ ?y) \<noteq> None \<longleftrightarrow>
            chunkError cs \<noteq> None \<or> chunkError a \<noteq> None" by blast
        with Cons False nb show ?thesis by (simp add: chunkError_Cons)
      qed
    qed
  qed
qed

text \<open>\<open>scanLoop\<close> cuts the pattern at the first star outside the brackets that
  \<open>crude\<close> tracks.\<close>

lemma scanLoop_Cons:
  "scanLoop (c # cs) inr =
     (if c = CHR 0x5C then
        (case cs of [] \<Rightarrow> ([c], [])
         | d # ds \<Rightarrow> (c # d # fst (scanLoop ds inr), snd (scanLoop ds inr)))
      else if c = CHR ''['' then (c # fst (scanLoop cs True), snd (scanLoop cs True))
      else if c = CHR '']'' then (c # fst (scanLoop cs False), snd (scanLoop cs False))
      else if c = CHR ''*'' \<and> \<not> inr then ([], c # cs)
      else (c # fst (scanLoop cs inr), snd (scanLoop cs inr)))"
  by (simp add: case_prod_beta split: list.split)

declare scanLoop.simps(2) [simp del]

lemma scanLoop_split_append:
  "snd (scanLoop p inr) \<noteq> [] \<Longrightarrow>
   scanLoop (p @ y) inr = (fst (scanLoop p inr), snd (scanLoop p inr) @ y)"
proof (induction p inr rule: scanLoop.induct)
  case (1 inr)
  then show ?case by simp
next
  case (2 c cs inr)
  show ?case
  proof (cases "c = CHR 0x5C")
    case True
    show ?thesis
    proof (cases cs)
      case Nil
      with "2.prems" True show ?thesis by (simp add: scanLoop_Cons)
    next
      case (Cons d ds)
      with "2.prems" True have "snd (scanLoop ds inr) \<noteq> []" by (simp add: scanLoop_Cons)
      from "2.IH"(1) [OF True Cons this] True Cons show ?thesis
        by (simp add: scanLoop_Cons)
    qed
  next
    case nb: False
    show ?thesis
    proof (cases "c = CHR ''[''")
      case True
      with "2.prems" nb have "snd (scanLoop cs True) \<noteq> []" by (simp add: scanLoop_Cons)
      from "2.IH"(2) [OF nb True this] True nb show ?thesis
        by (simp add: scanLoop_Cons)
    next
      case no: False
      show ?thesis
      proof (cases "c = CHR '']''")
        case True
        with "2.prems" nb no have "snd (scanLoop cs False) \<noteq> []" by (simp add: scanLoop_Cons)
        from "2.IH"(3) [OF nb no True this] True nb no show ?thesis
          by (simp add: scanLoop_Cons)
      next
        case nc: False
        show ?thesis
        proof (cases "c = CHR ''*'' \<and> \<not> inr")
          case True
          with nb no nc show ?thesis by (simp add: scanLoop_Cons)
        next
          case False
          with "2.prems" nb no nc have "snd (scanLoop cs inr) \<noteq> []"
            by (simp add: scanLoop_Cons)
          from "2.IH"(4) [OF nb no nc False this] False nb no nc show ?thesis
            by (simp add: scanLoop_Cons)
        qed
      qed
    qed
  qed
qed

lemma scanLoop_split_crude:
  "snd (scanLoop p inr) \<noteq> [] \<Longrightarrow> crude p inr = crude (snd (scanLoop p inr)) False"
proof (induction p inr rule: scanLoop.induct)
  case (1 inr)
  then show ?case by simp
next
  case (2 c cs inr)
  show ?case
  proof (cases "c = CHR 0x5C")
    case True
    show ?thesis
    proof (cases cs)
      case Nil
      with "2.prems" True show ?thesis by (simp add: scanLoop_Cons)
    next
      case (Cons d ds)
      with "2.prems" True have "snd (scanLoop ds inr) \<noteq> []" by (simp add: scanLoop_Cons)
      from "2.IH"(1) [OF True Cons this] True Cons show ?thesis
        by (simp add: scanLoop_Cons)
    qed
  next
    case nb: False
    show ?thesis
    proof (cases "c = CHR ''[''")
      case True
      with "2.prems" nb have "snd (scanLoop cs True) \<noteq> []" by (simp add: scanLoop_Cons)
      from "2.IH"(2) [OF nb True this] True nb show ?thesis
        by (simp add: scanLoop_Cons)
    next
      case no: False
      show ?thesis
      proof (cases "c = CHR '']''")
        case True
        with "2.prems" nb no have "snd (scanLoop cs False) \<noteq> []" by (simp add: scanLoop_Cons)
        from "2.IH"(3) [OF nb no True this] True nb no show ?thesis
          by (simp add: scanLoop_Cons)
      next
        case nc: False
        show ?thesis
        proof (cases "c = CHR ''*'' \<and> \<not> inr")
          case True
          with nb no nc show ?thesis by (simp add: scanLoop_Cons)
        next
          case False
          with "2.prems" nb no nc have "snd (scanLoop cs inr) \<noteq> []"
            by (simp add: scanLoop_Cons)
          from "2.IH"(4) [OF nb no nc False this] False nb no nc show ?thesis
            by (auto simp: scanLoop_Cons)
        qed
      qed
    qed
  qed
qed

lemma scanLoop_whole_append:
  "snd (scanLoop p inr) = [] \<Longrightarrow> \<not> snd (crude p inr) \<Longrightarrow>
   scanLoop (p @ y) inr
     = (p @ fst (scanLoop y (fst (crude p inr))), snd (scanLoop y (fst (crude p inr))))"
proof (induction p inr rule: scanLoop.induct)
  case (1 inr)
  then show ?case by simp
next
  case (2 c cs inr)
  note s = "2.prems"(1) and np = "2.prems"(2)
  show ?case
  proof (cases "c = CHR 0x5C")
    case True
    show ?thesis
    proof (cases cs)
      case Nil
      with np True show ?thesis by simp
    next
      case (Cons d ds)
      with s True have s': "snd (scanLoop ds inr) = []" by (simp add: scanLoop_Cons)
      from np True Cons have np': "\<not> snd (crude ds inr)" by simp
      from "2.IH"(1) [OF True Cons s' np'] True Cons show ?thesis
        by (simp add: scanLoop_Cons)
    qed
  next
    case nb: False
    show ?thesis
    proof (cases "c = CHR ''[''")
      case True
      with s nb have s': "snd (scanLoop cs True) = []" by (simp add: scanLoop_Cons)
      from np True nb have np': "\<not> snd (crude cs True)" by simp
      from "2.IH"(2) [OF nb True s' np'] True nb show ?thesis
        by (simp add: scanLoop_Cons)
    next
      case no: False
      show ?thesis
      proof (cases "c = CHR '']''")
        case True
        with s nb no have s': "snd (scanLoop cs False) = []" by (simp add: scanLoop_Cons)
        from np True nb no have np': "\<not> snd (crude cs False)" by simp
        from "2.IH"(3) [OF nb no True s' np'] True nb no show ?thesis
          by (simp add: scanLoop_Cons)
      next
        case nc: False
        show ?thesis
        proof (cases "c = CHR ''*'' \<and> \<not> inr")
          case True
          with s nb no nc show ?thesis by (simp add: scanLoop_Cons)
        next
          case False
          with s nb no nc have s': "snd (scanLoop cs inr) = []"
            by (simp add: scanLoop_Cons)
          from np nb no nc have np': "\<not> snd (crude cs inr)" by simp
          from "2.IH"(4) [OF nb no nc False s' np'] False nb no nc show ?thesis
            by (simp add: scanLoop_Cons)
        qed
      qed
    qed
  qed
qed

lemma crude_dropWhile_star: "crude (dropWhile isStar t) inr = crude t inr"
  by (induction t) auto

lemma chunkBad_Nil: "\<not> chunkBad []"
  by (simp add: chunkBad_def chunkError_Nil)

lemma chunkBad_slash_Cons: "chunkBad (CHR ''/'' # a) \<longleftrightarrow> chunkBad a"
  by (simp add: chunkBad_def chunkError_Cons)

lemma chunkBad_slash:
  "crude p False = (False, False) \<Longrightarrow> chunkBad (p @ CHR ''/'' # a) \<longleftrightarrow> chunkBad p \<or> chunkBad a"
  unfolding chunkBad_def by (rule chunkError_slash)

lemma bad_Nil: "\<not> bad []"
  by (simp add: bad_def validateRest_Nil)

lemma bad_unfold:
  assumes "p \<noteq> []"
  shows "bad p \<longleftrightarrow> chunkBad (fst (scanLoop (dropWhile isStar p) False))
                   \<or> bad (snd (scanLoop (dropWhile isStar p) False))"
proof -
  obtain ch r where sl: "scanLoop (dropWhile isStar p) False = (ch, r)"
    by (cases "scanLoop (dropWhile isStar p) False") auto
  then have "scanChunk p = (p \<noteq> [] \<and> hd p = CHR ''*'', ch, r)"
    by (simp add: scanChunk_def)
  from validateRest_unfold [OF assms this] sl show ?thesis
    by (cases "chunkError ch") (simp_all add: bad_def chunkBad_def)
qed

lemma bad_scanLoop:
  "chunkBad (fst (scanLoop q False)) \<or> bad (snd (scanLoop q False)) \<longleftrightarrow> bad q"
proof (cases q)
  case Nil
  then show ?thesis by (simp add: chunkBad_Nil bad_Nil)
next
  case (Cons c cs)
  show ?thesis
  proof (cases "c = CHR ''*''")
    case True
    with Cons show ?thesis by (simp add: chunkBad_Nil scanLoop_Cons)
  next
    case False
    with Cons have "dropWhile isStar q = q" by simp
    with bad_unfold [of q] Cons show ?thesis by simp
  qed
qed

lemma bad_slash: "bad (CHR ''/'' # q) \<longleftrightarrow> bad q"
proof -
  have "bad (CHR ''/'' # q) \<longleftrightarrow>
      chunkBad (CHR ''/'' # fst (scanLoop q False)) \<or> bad (snd (scanLoop q False))"
    by (subst bad_unfold) (simp_all add: scanLoop_Cons)
  then show ?thesis
    unfolding chunkBad_slash_Cons bad_scanLoop .
qed

lemma snd_scanLoop_shorter:
  "p \<noteq> [] \<Longrightarrow> length (snd (scanLoop (dropWhile isStar p) False)) < length p"
  using scanChunk_shorter [of p "p \<noteq> [] \<and> hd p = CHR ''*''" "fst (scanLoop (dropWhile isStar p) False)"
      "snd (scanLoop (dropWhile isStar p) False)"]
  by (simp add: scanChunk_def case_prod_beta)

text \<open>A pattern that ends outside brackets, followed by a separator and a second pattern,
  fails the validation exactly when one of the two does.\<close>

lemma bad_append_slash:
  "crude t False = (False, False) \<Longrightarrow> bad (t @ CHR ''/'' # q) \<longleftrightarrow> bad t \<or> bad q"
proof (induction t rule: length_induct)
  case (1 t)
  let ?y = "CHR ''/'' # q"
  note cr = "1.prems"
  show ?case
  proof (cases "t = []")
    case True
    then show ?thesis by (simp add: bad_slash bad_Nil)
  next
    case tne: False
    define p where "p = dropWhile isStar t"
    define ch where "ch = fst (scanLoop p False)"
    define rest where "rest = snd (scanLoop p False)"
    have bt: "bad t \<longleftrightarrow> chunkBad ch \<or> bad rest"
      using bad_unfold [OF tne] by (simp add: p_def ch_def rest_def)
    have crp: "crude p False = (False, False)"
      using cr by (simp add: p_def crude_dropWhile_star)
    have dy: "dropWhile isStar (t @ ?y) = p @ ?y"
      by (simp add: p_def dropWhile_append)
    have bty: "bad (t @ ?y) \<longleftrightarrow> chunkBad (fst (scanLoop (p @ ?y) False))
                 \<or> bad (snd (scanLoop (p @ ?y) False))"
      using bad_unfold [of "t @ ?y"] dy by simp
    show ?thesis
    proof (cases "rest = []")
      case False
      from scanLoop_split_append [of p False ?y] scanLoop_split_crude [of p False] False
      have sl: "scanLoop (p @ ?y) False = (ch, rest @ ?y)"
        and crr: "crude rest False = (False, False)"
        using crp by (simp_all add: ch_def rest_def)
      have "length rest < length t"
        using snd_scanLoop_shorter [OF tne] by (simp add: rest_def p_def)
      with "1.IH" crr have "bad (rest @ ?y) \<longleftrightarrow> bad rest \<or> bad q" by blast
      with bty sl bt show ?thesis by simp
    next
      case True
      have chp: "ch = p"
        using scanLoop_append_fst_snd [of p False] True by (simp add: ch_def rest_def)
      from scanLoop_whole_append [of p False ?y] True crp
      have sl: "scanLoop (p @ ?y) False
                  = (p @ CHR ''/'' # fst (scanLoop q False), snd (scanLoop q False))"
        by (simp add: rest_def scanLoop_Cons)
      have "bad (t @ ?y) \<longleftrightarrow> chunkBad (p @ CHR ''/'' # fst (scanLoop q False))
                 \<or> bad (snd (scanLoop q False))"
        using bty sl by simp
      also have "\<dots> \<longleftrightarrow> chunkBad p \<or> (chunkBad (fst (scanLoop q False))
                 \<or> bad (snd (scanLoop q False)))"
        unfolding chunkBad_slash [OF crp] by blast
      also have "\<dots> \<longleftrightarrow> chunkBad p \<or> bad q"
        unfolding bad_scanLoop ..
      finally show ?thesis
        using bt True chp by (simp add: bad_Nil)
    qed
  qed
qed

text \<open>The terms of a pattern string, one separator at a time.\<close>

lemma strings_Split_first:
  "sep \<notin> set t \<Longrightarrow> strings_Split sep (t @ sep # q) = t # strings_Split sep q"
  by (induction t) auto

lemma strings_Split_none: "sep \<notin> set t \<Longrightarrow> strings_Split sep t = [t]"
  by (induction t) auto

lemma separatorsOutside_first:
  "CHR ''/'' \<notin> set t \<Longrightarrow>
   separatorsOutside (t @ CHR ''/'' # q) inr
     \<longleftrightarrow> crude t inr = (False, False) \<and> separatorsOutside q False"
proof (induction t inr rule: crude.induct)
  case (1 inr)
  show ?case by auto
next
  case (2 c cs inr)
  show ?case
  proof (cases "c = CHR 0x5C")
    case True
    show ?thesis
    proof (cases cs)
      case Nil
      with True show ?thesis by simp
    next
      case (Cons d ds)
      with "2.prems" have "CHR ''/'' \<notin> set ds" "d \<noteq> CHR ''/''" by auto
      with "2.IH"(1) [OF True Cons] True Cons show ?thesis by simp
    qed
  next
    case nb: False
    from "2.prems" have ns: "CHR ''/'' \<notin> set cs" "c \<noteq> CHR ''/''" by auto
    show ?thesis
    proof (cases "c = CHR ''[''")
      case True
      with "2.IH"(2) [OF nb True ns(1)] nb show ?thesis by simp
    next
      case no: False
      show ?thesis
      proof (cases "c = CHR '']''")
        case True
        with "2.IH"(3) [OF nb no True ns(1)] nb no show ?thesis by simp
      next
        case False
        with "2.IH"(4) [OF nb no False ns(1)] nb no ns(2) show ?thesis by simp
      qed
    qed
  qed
qed

lemma bad_terms_split:
  "(\<exists>u\<in>set (patternTerms s). bad u) \<longleftrightarrow> (\<exists>u\<in>set (strings_Split (CHR ''/'') s). bad u)"
proof -
  have "(\<exists>u\<in>set (nonEmptySteps s). bad u) \<longleftrightarrow> (\<exists>u\<in>set (strings_Split (CHR ''/'') s). bad u)"
    using bad_Nil by (auto simp: nonEmptySteps_def)
  moreover have "(\<exists>u\<in>set (patternTerms s). bad u) \<longleftrightarrow> (\<exists>u\<in>set (nonEmptySteps s). bad u)"
    using bad_Nil by (auto simp: patternTerms_def)
  ultimately show ?thesis by simp
qed

lemma bad_terms:
  "separatorsOutside s False \<Longrightarrow> bad s \<longleftrightarrow> (\<exists>u\<in>set (patternTerms s). bad u)"
proof (induction s rule: length_induct)
  case (1 s)
  define t where "t = takeWhile (\<lambda>c. c \<noteq> CHR ''/'') s"
  define r where "r = dropWhile (\<lambda>c. c \<noteq> CHR ''/'') s"
  have s: "s = t @ r" by (simp add: t_def r_def)
  have nt: "CHR ''/'' \<notin> set t"
    unfolding t_def by (auto dest: set_takeWhileD)
  show ?case
  proof (cases r)
    case Nil
    with s nt have "strings_Split (CHR ''/'') s = [s]"
      by (simp add: strings_Split_none)
    then show ?thesis by (simp add: bad_terms_split)
  next
    case (Cons c q)
    have "c = CHR ''/''"
    proof -
      from Cons have "dropWhile (\<lambda>c. c \<noteq> CHR ''/'') s \<noteq> []" by (simp add: r_def)
      from hd_dropWhile [OF this] Cons show ?thesis by (simp add: r_def)
    qed
    with s Cons have sq: "s = t @ CHR ''/'' # q" by simp
    from "1.prems" separatorsOutside_first [OF nt, of q False] sq
    have cr: "crude t False = (False, False)" and so: "separatorsOutside q False" by simp_all
    from sq have "length q < length s" by simp
    with "1.IH" so have ih: "bad q \<longleftrightarrow> (\<exists>u\<in>set (patternTerms q). bad u)" by blast
    have "bad s \<longleftrightarrow> bad t \<or> bad q"
      using bad_append_slash [OF cr, of q] sq by simp
    also have "\<dots> \<longleftrightarrow> bad t \<or> (\<exists>u\<in>set (strings_Split (CHR ''/'') q). bad u)"
      using ih by (simp add: bad_terms_split)
    also have "\<dots> \<longleftrightarrow> (\<exists>u\<in>set (strings_Split (CHR ''/'') s). bad u)"
      using strings_Split_first [OF nt, of q] sq by simp
    finally show ?thesis by (simp add: bad_terms_split)
  qed
qed

text \<open>A pattern that passes the validation ends outside brackets and not in a backslash.\<close>

lemma chunkBad_Cons_bracket:
  assumes "classLoop (if cs \<noteq> [] \<and> hd cs = CHR ''^'' then tl cs else cs) 0 False 0 = (c3, m, err)"
  shows "chunkBad (CHR ''['' # cs) \<longleftrightarrow> err \<noteq> None \<or> chunkBad c3"
  using assms by (cases err) (simp_all add: chunkBad_def chunkError_Cons)

lemma chunkBad_Cons_escape:
  "chunkBad (CHR 0x5C # cs) \<longleftrightarrow> (case cs of [] \<Rightarrow> True | d # ds \<Rightarrow> chunkBad ds)"
  by (cases cs) (simp_all add: chunkBad_def chunkError_Cons)

lemma chunkBad_Cons_other:
  "c \<noteq> CHR ''['' \<Longrightarrow> c \<noteq> CHR 0x5C \<Longrightarrow> chunkBad (c # cs) \<longleftrightarrow> chunkBad cs"
  by (simp add: chunkBad_def chunkError_Cons)

lemma chunk_good_crude: "\<not> chunkBad c \<Longrightarrow> crude c False = (False, False)"
proof (induction c rule: length_induct)
  case (1 c)
  show ?case
  proof (cases c)
    case Nil
    then show ?thesis by simp
  next
    case (Cons x cs)
    show ?thesis
    proof (cases "x = CHR ''[''")
      case True
      define cs' where "cs' = (if cs \<noteq> [] \<and> hd cs = CHR ''^'' then tl cs else cs)"
      obtain c3 m err where cl: "classLoop cs' 0 False 0 = (c3, m, err)"
        by (cases "classLoop cs' 0 False 0") auto
      from chunkBad_Cons_bracket [OF cl [unfolded cs'_def]] "1.prems" Cons True
      have err: "err = None" and g3: "\<not> chunkBad c3" by auto
      note cl = cl [unfolded err]
      from classLoop_shorter [OF cl] have "length c3 < length cs'" .
      moreover have "length cs' \<le> length cs" by (simp add: cs'_def)
      ultimately have "length c3 < length c" using Cons by simp
      with "1.IH" g3 have "crude c3 False = (False, False)" by blast
      with classLoop_ok_append [OF cl, of "[]"] have "crude cs' True = (False, False)" by simp
      moreover have "crude cs True = crude cs' True"
        by (cases cs) (auto simp: cs'_def)
      ultimately show ?thesis using Cons True by simp
    next
      case nb: False
      show ?thesis
      proof (cases "x = CHR 0x5C")
        case True
        with "1.prems" Cons chunkBad_Cons_escape [of cs]
        obtain d ds where cs: "cs = d # ds" and g: "\<not> chunkBad ds"
          by (cases cs) auto
        with "1.IH" Cons have "crude ds False = (False, False)" by simp
        with Cons True cs show ?thesis by simp
      next
        case False
        with "1.prems" Cons nb chunkBad_Cons_other [of x cs] have "\<not> chunkBad cs" by simp
        with "1.IH" Cons have "crude cs False = (False, False)" by simp
        with Cons nb False show ?thesis by simp
      qed
    qed
  qed
qed

lemma good_crude: "\<not> bad p \<Longrightarrow> crude p False = (False, False)"
proof (induction p rule: length_induct)
  case (1 p)
  show ?case
  proof (cases "p = []")
    case True
    then show ?thesis by simp
  next
    case pne: False
    define q where "q = dropWhile isStar p"
    define ch where "ch = fst (scanLoop q False)"
    define rest where "rest = snd (scanLoop q False)"
    from bad_unfold [OF pne] "1.prems"
    have gch: "\<not> chunkBad ch" and grest: "\<not> bad rest"
      by (simp_all add: q_def ch_def rest_def)
    have cq: "crude p False = crude q False"
      by (simp add: q_def crude_dropWhile_star)
    show ?thesis
    proof (cases "rest = []")
      case False
      have "length rest < length p"
        using snd_scanLoop_shorter [OF pne] by (simp add: rest_def q_def)
      with "1.IH" grest have "crude rest False = (False, False)" by blast
      with scanLoop_split_crude [of q False] False cq show ?thesis
        by (simp add: rest_def)
    next
      case True
      have "ch = q"
        using scanLoop_append_fst_snd [of q False] True by (simp add: ch_def rest_def)
      with chunk_good_crude [OF gch] cq show ?thesis by simp
    qed
  qed
qed

lemma bad_terms_sound:
  "bad s \<Longrightarrow> \<exists>u\<in>set (patternTerms s). bad u"
proof (induction s rule: length_induct)
  case (1 s)
  define t where "t = takeWhile (\<lambda>c. c \<noteq> CHR ''/'') s"
  define r where "r = dropWhile (\<lambda>c. c \<noteq> CHR ''/'') s"
  have s: "s = t @ r" by (simp add: t_def r_def)
  have nt: "CHR ''/'' \<notin> set t"
    unfolding t_def by (auto dest: set_takeWhileD)
  show ?case
  proof (cases r)
    case Nil
    with s nt have "strings_Split (CHR ''/'') s = [s]"
      by (simp add: strings_Split_none)
    with "1.prems" show ?thesis by (simp add: bad_terms_split)
  next
    case (Cons c q)
    have "c = CHR ''/''"
    proof -
      from Cons have "dropWhile (\<lambda>c. c \<noteq> CHR ''/'') s \<noteq> []" by (simp add: r_def)
      from hd_dropWhile [OF this] Cons show ?thesis by (simp add: r_def)
    qed
    with s Cons have sq: "s = t @ CHR ''/'' # q" by simp
    have sp: "strings_Split (CHR ''/'') s = t # strings_Split (CHR ''/'') q"
      using strings_Split_first [OF nt, of q] sq by simp
    have "bad t \<or> bad q"
    proof (cases "crude t False = (False, False)")
      case True
      from bad_append_slash [OF True, of q] "1.prems" sq show ?thesis by simp
    next
      case False
      with good_crude [of t] show ?thesis by blast
    qed
    then show ?thesis
    proof
      assume "bad t"
      with sp show ?thesis by (simp add: bad_terms_split)
    next
      assume bq: "bad q"
      from sq have "length q < length s" by simp
      with "1.IH" bq have "\<exists>u\<in>set (patternTerms q). bad u" by blast
      with sp show ?thesis by (simp add: bad_terms_split)
    qed
  qed
qed

text \<open>Every error of the validation is \<open>ErrBadPattern\<close>.\<close>

lemma getEsc_error_kind: "getEsc c = (r, nc, Some e) \<Longrightarrow> e = ErrBadPattern"
  by (auto simp: getEsc_def Let_def split: list.splits if_splits prod.splits)

lemma classLoop_error_kind:
  "classLoop c r m n = (c3, m', Some e) \<Longrightarrow> e = ErrBadPattern"
proof (induction c r m n rule: classLoop.induct)
  case (1 chunk r matched nrange)
  show ?case
  proof (cases "chunk \<noteq> [] \<and> hd chunk = CHR '']'' \<and> 0 < nrange")
    case True
    with "1.prems" show ?thesis by (simp add: classLoop_closing)
  next
    case False
    obtain lo chunk1 err where g1: "getEsc chunk = (lo, chunk1, err)"
      by (cases "getEsc chunk") auto
    show ?thesis
    proof (cases err)
      case (Some e1)
      from classLoop_err1 [OF False g1 [unfolded Some], of r matched] "1.prems"
      have "e = e1" by simp
      with getEsc_error_kind [OF g1 [unfolded Some]] show ?thesis by simp
    next
      case None
      note g1 = g1 [unfolded None]
      show ?thesis
      proof (cases "hd chunk1 = CHR ''-''")
        case dash: True
        obtain hi chunk2 err2 where g2: "getEsc (tl chunk1) = (hi, chunk2, err2)"
          by (cases "getEsc (tl chunk1)") auto
        show ?thesis
        proof (cases err2)
          case (Some e2)
          from classLoop_err2 [OF False g1 dash g2 [unfolded Some], of r matched] "1.prems"
          have "e = e2" by simp
          with getEsc_error_kind [OF g2 [unfolded Some]] show ?thesis by simp
        next
          case n2: None
          note g2 = g2 [unfolded n2]
          from "1.IH"(1) [OF False g1 [symmetric] refl refl dash g2 [symmetric] refl refl]
            "1.prems" [unfolded classLoop_dash [OF False g1 dash g2]]
          show ?thesis by simp
        qed
      next
        case nodash: False
        from "1.IH"(2) [OF False g1 [symmetric] refl refl nodash]
          "1.prems" [unfolded classLoop_nodash [OF False g1 nodash]]
        show ?thesis by simp
      qed
    qed
  qed
qed

lemma chunkError_kind: "chunkError c = Some e \<Longrightarrow> e = ErrBadPattern"
proof (induction c rule: length_induct)
  case (1 c)
  show ?case
  proof (cases c)
    case Nil
    with "1.prems" show ?thesis by (simp add: chunkError_Nil)
  next
    case (Cons x cs)
    show ?thesis
    proof (cases "x = CHR ''[''")
      case True
      define cs' where "cs' = (if cs \<noteq> [] \<and> hd cs = CHR ''^'' then tl cs else cs)"
      obtain c3 m err where cl: "classLoop cs' 0 False 0 = (c3, m, err)"
        by (cases "classLoop cs' 0 False 0") auto
      show ?thesis
      proof (cases err)
        case (Some e1)
        with "1.prems" Cons True cl have "e = e1"
          by (simp add: chunkError_Cons cs'_def)
        with classLoop_error_kind [OF cl [unfolded Some]] show ?thesis by simp
      next
        case None
        note cl = cl [unfolded None]
        from classLoop_shorter [OF cl] have "length c3 < length cs'" .
        moreover have "length cs' \<le> length cs" by (simp add: cs'_def)
        ultimately have "length c3 < length c" using Cons by simp
        moreover from "1.prems" Cons True cl have "chunkError c3 = Some e"
          by (simp add: chunkError_Cons cs'_def)
        ultimately show ?thesis using "1.IH" by blast
      qed
    next
      case nb: False
      show ?thesis
      proof (cases "x = CHR 0x5C")
        case True
        show ?thesis
        proof (cases cs)
          case Nil
          with "1.prems" Cons True show ?thesis by (simp add: chunkError_Cons)
        next
          case c2: (Cons d ds)
          from c2 "1.prems" Cons True have "chunkError ds = Some e" by (simp add: chunkError_Cons)
          moreover from Cons c2 have "length ds < length c" by simp
          ultimately show ?thesis using "1.IH" by blast
        qed
      next
        case False
        with "1.prems" Cons nb have "chunkError cs = Some e"
          by (simp add: chunkError_Cons split: if_splits)
        moreover from Cons have "length cs < length c" by simp
        ultimately show ?thesis using "1.IH" by blast
      qed
    qed
  qed
qed

lemma validateRest_kind: "validateRest p = Some e \<Longrightarrow> e = ErrBadPattern"
proof (induction p rule: length_induct)
  case (1 p)
  show ?case
  proof (cases "p = []")
    case True
    with "1.prems" show ?thesis by (simp add: validateRest_Nil)
  next
    case False
    obtain st chunk rest where sc: "scanChunk p = (st, chunk, rest)"
      by (cases "scanChunk p") auto
    note u = validateRest_unfold [OF False sc]
    show ?thesis
    proof (cases "chunkError chunk")
      case (Some e1)
      with u "1.prems" have "e = e1" by simp
      with chunkError_kind [OF Some] show ?thesis by simp
    next
      case None
      with u "1.prems" have "validateRest rest = Some e" by simp
      moreover from scanChunk_shorter [OF False sc] have "length rest < length p" .
      ultimately show ?thesis using "1.IH" by blast
    qed
  qed
qed

lemma rejected_bad: "rejected p \<longleftrightarrow> bad p"
  by (simp add: rejected_def bad_def path_Match_empty_name)

lemma malformedTerm_bad: "malformedTerm t \<longleftrightarrow> bad t"
  by (simp add: malformedTerm_def bad_def path_Match_empty_name)

lemma malformed_terms: "malformed p \<longleftrightarrow> (\<exists>u\<in>set (patternTerms p). bad u)"
  by (simp add: malformed_def list_ex_iff malformedTerm_bad)

text \<open>A string that the validation of the whole string rejects has a malformed term.\<close>

lemma rejected_malformed: "rejected p \<Longrightarrow> malformed p"
  using bad_terms_sound [of p] by (simp add: rejected_bad malformed_terms)

text \<open>When the separators of a string keep clear of its classes and escapes, the
  validation of the whole string and the validation of its terms agree.\<close>

lemma rejected_iff_malformed: "separatorsOutside p False \<Longrightarrow> rejected p \<longleftrightarrow> malformed p"
  using bad_terms [of p] by (simp add: rejected_bad malformed_terms)

lemma filter_rejected_malformed:
  "\<forall>s\<in>set ps. separatorsOutside s False \<Longrightarrow> filter rejected ps = filter malformed ps"
  by (rule filter_cong) (simp_all add: rejected_iff_malformed)

text \<open>The only syntax error is \<open>ErrBadPattern\<close>.\<close>

lemma syntaxErrors_kind: "syntaxErrors ps = map (\<lambda>s. ErrBadPattern) (filter rejected ps)"
proof (induction ps)
  case Nil
  show ?case by (simp add: syntaxErrors_Nil)
next
  case (Cons s ps)
  show ?case
  proof (cases "validateRest s")
    case None
    with Cons.IH show ?thesis
      by (simp add: syntaxErrors_Cons rejected_def path_Match_empty_name)
  next
    case (Some e)
    with validateRest_kind [OF Some] Cons.IH show ?thesis
      by (simp add: syntaxErrors_Cons rejected_def path_Match_empty_name)
  qed
qed

text \<open>With the separator inside a class, or escaped, \<open>New\<close> accepts a string whose terms
  are malformed, and compiles those terms.\<close>

lemma New_separator_in_class:
  "New [''[a/b]''] [] = (Some (MatchGlob \<lparr>include = [[''[a'', ''b]'']], exclude = []\<rparr>), None)"
  "malformedTerm ''[a''"
  "malformed ''[a/b]''"
  "\<not> separatorsOutside ''[a/b]'' False"
  by code_simp+

lemma New_separator_escaped:
  "New [[CHR ''a'', CHR 0x5C, CHR ''/'', CHR ''b'']] []
     = (Some (MatchGlob \<lparr>include = [[[CHR ''a'', CHR 0x5C], ''b'']], exclude = []\<rparr>), None)"
  "malformedTerm [CHR ''a'', CHR 0x5C]"
  "malformed [CHR ''a'', CHR 0x5C, CHR ''/'', CHR ''b'']"
  "\<not> separatorsOutside [CHR ''a'', CHR 0x5C, CHR ''/'', CHR ''b''] False"
  by code_simp+

text \<open>
  C5, as the code has it. \<open>New\<close> returns early, with the match-all or the match-none
  strategy and no error, whatever the strings, when its guards say so. Otherwise it
  returns no Glob exactly when it returns an error, and an error only if some string of
  the two lists has a malformed term. When moreover every separator of every string
  keeps clear of classes and escapes, it returns an error exactly when some string of the
  two lists has a malformed term, and the error wraps, through the joined errors of the
  two lists, one syntax error for each malformed string, includes first.
\<close>

theorem New_error_aggregates:
  "(length excs = 0 \<and> ''**'' \<in> set incs \<longrightarrow> New incs excs = (Some AllGlob, None))
   \<and> (\<not> (length excs = 0 \<and> ''**'' \<in> set incs) \<and> (length incs = 0 \<or> ''**'' \<in> set excs)
        \<longrightarrow> New incs excs = (Some NoneGlob, None))
   \<and> (\<not> (length excs = 0 \<and> ''**'' \<in> set incs) \<and> \<not> (length incs = 0 \<or> ''**'' \<in> set excs)
        \<longrightarrow> (fst (New incs excs) = None \<longleftrightarrow> snd (New incs excs) \<noteq> None)
          \<and> (snd (New incs excs) \<noteq> None \<longrightarrow> (\<exists>s\<in>set (incs @ excs). malformed s))
          \<and> ((\<forall>s\<in>set (incs @ excs). separatorsOutside s False) \<longrightarrow>
               (snd (New incs excs) \<noteq> None \<longleftrightarrow> (\<exists>s\<in>set (incs @ excs). malformed s))
             \<and> (\<forall>err. snd (New incs excs) = Some err \<longrightarrow>
                   concat (map unwrapJoin (unwrapJoin err))
                     = map (\<lambda>s. ErrBadPattern) (filter malformed (incs @ excs)))))"
proof (intro conjI impI)
  assume "length excs = 0 \<and> ''**'' \<in> set incs"
  then show "New incs excs = (Some AllGlob, None)" by (simp add: New_def)
next
  assume "\<not> (length excs = 0 \<and> ''**'' \<in> set incs) \<and> (length incs = 0 \<or> ''**'' \<in> set excs)"
  then show "New incs excs = (Some NoneGlob, None)" by (auto simp: New_def)
next
  assume a: "\<not> (length excs = 0 \<and> ''**'' \<in> set incs) \<and> \<not> (length incs = 0 \<or> ''**'' \<in> set excs)"
  then have a1: "\<not> (length excs = 0 \<and> ''**'' \<in> set incs)"
    and a2: "\<not> (length incs = 0 \<or> ''**'' \<in> set excs)" by blast+
  note g = snd_New_general [OF a1 a2]
  have e: "snd (New incs excs) =
      (if syntaxErrors incs = [] then
         (if syntaxErrors excs = [] then None
          else Some (JoinError [JoinError (syntaxErrors excs)]))
       else if syntaxErrors excs = []
         then Some (JoinError [JoinError (syntaxErrors incs)])
         else Some (JoinError [JoinError (syntaxErrors incs),
                               JoinError (syntaxErrors excs)]))"
    unfolding g(1) errors_Join_Somes by (simp add: errors_Join_def)
  have iff: "snd (New incs excs) \<noteq> None \<longleftrightarrow> (\<exists>s\<in>set (incs @ excs). rejected s)"
    using syntaxErrors_Nil_iff [of incs] syntaxErrors_Nil_iff [of excs]
    unfolding e by auto
  have agg: "concat (map unwrapJoin (unwrapJoin err)) = syntaxErrors (incs @ excs)"
    if "snd (New incs excs) = Some err" for err
    using that unfolding e syntaxErrors_append by (auto split: if_splits)
  show "fst (New incs excs) = None \<longleftrightarrow> snd (New incs excs) \<noteq> None"
    by (rule g(2))
  show "\<exists>s\<in>set (incs @ excs). malformed s" if "snd (New incs excs) \<noteq> None"
    using that iff rejected_malformed by blast
  {
    assume so: "\<forall>s\<in>set (incs @ excs). separatorsOutside s False"
    then show "snd (New incs excs) \<noteq> None \<longleftrightarrow> (\<exists>s\<in>set (incs @ excs). malformed s)"
      using iff rejected_iff_malformed by blast
    show "\<forall>err. snd (New incs excs) = Some err \<longrightarrow>
            concat (map unwrapJoin (unwrapJoin err))
              = map (\<lambda>s. ErrBadPattern) (filter malformed (incs @ excs))"
    proof (intro allI impI)
      fix err
      assume "snd (New incs excs) = Some err"
      from agg [OF this]
      show "concat (map unwrapJoin (unwrapJoin err))
              = map (\<lambda>s. ErrBadPattern) (filter malformed (incs @ excs))"
        unfolding syntaxErrors_kind filter_rejected_malformed [OF so] .
    qed
  }
qed

theorem New_error_aggregates_witness:
  "New [''**'', ''[''] [] = (Some AllGlob, None)
   \<and> New [''a''] [''**'', ''[''] = (Some NoneGlob, None)
   \<and> snd (New [''a'', ''[''] [''b/c'', ''x/[a'']) \<noteq> None
   \<and> fst (New [''a'', ''[''] [''b/c'', ''x/[a'']) = None
   \<and> concat (map unwrapJoin (unwrapJoin (the (snd (New [''a'', ''[''] [''b/c'', ''x/[a''])))))
       = [ErrBadPattern, ErrBadPattern]"
proof -
  have m: "malformed ''[''" "malformed ''x/[a''" "\<not> malformed ''a''" "\<not> malformed ''b/c''"
    by code_simp+
  have so: "\<forall>s\<in>set ([''a'', ''['']  @ [''b/c'', ''x/[a'']). separatorsOutside s False"
    by simp
  have g: "\<not> (length [''b/c'', ''x/[a''] = 0 \<and> ''**'' \<in> set [''a'', ''[''])
         \<and> \<not> (length [''a'', ''[''] = 0 \<or> ''**'' \<in> set [''b/c'', ''x/[a''])"
    by simp
  from New_error_aggregates [where incs = "[''a'', ''['']" and excs = "[''b/c'', ''x/[a'']"] g so
  have t: "fst (New [''a'', ''[''] [''b/c'', ''x/[a'']) = None
             \<longleftrightarrow> snd (New [''a'', ''[''] [''b/c'', ''x/[a'']) \<noteq> None"
      "snd (New [''a'', ''[''] [''b/c'', ''x/[a'']) \<noteq> None
         \<longleftrightarrow> (\<exists>s\<in>set ([''a'', ''['']  @ [''b/c'', ''x/[a'']). malformed s)"
      "\<forall>err. snd (New [''a'', ''[''] [''b/c'', ''x/[a'']) = Some err \<longrightarrow>
         concat (map unwrapJoin (unwrapJoin err))
           = map (\<lambda>s. ErrBadPattern) (filter malformed ([''a'', ''['']  @ [''b/c'', ''x/[a'']))"
    by blast+
  from t(2) m have ne: "snd (New [''a'', ''[''] [''b/c'', ''x/[a'']) \<noteq> None"
    by simp
  then obtain err where err: "snd (New [''a'', ''[''] [''b/c'', ''x/[a'']) = Some err"
    by auto
  with t(3) m have "concat (map unwrapJoin (unwrapJoin err)) = [ErrBadPattern, ErrBadPattern]"
    by simp
  with ne err t(1) New_error_aggregates [where incs = "[''**'', ''['']" and excs = "[]"]
    New_error_aggregates [where incs = "[''a'']" and excs = "[''**'', ''['']"]
  show ?thesis by simp
qed

text \<open>
  C5 as stated fails where \<open>New\<close> returns early: with no includes it returns the
  match-none strategy and no error, without compiling the exclude, which is malformed
  and has no separator.
\<close>

theorem New_error_counterexample:
  "New [] [''[''] = (Some NoneGlob, None) \<and> malformed ''[''
   \<and> separatorsOutside ''['' False"
  by code_simp

end
